theory Spec2Isabelle
  imports Complex_Main "HOL-Library.Multiset"
begin

section \<open>Python lists with checked indexing\<close>

text \<open>
  The heap of \<^verbatim>\<open>maxheap.py\<close> is a Python list that the functions mutate in place.
  The model passes the list in and returns the updated list. Every read
  \<^verbatim>\<open>heap[i]\<close>, every write \<^verbatim>\<open>heap[i] = v\<close> and \<^verbatim>\<open>heap.pop()\<close> is checked:
  out of range it raises \<^verbatim>\<open>IndexError\<close>, and the raised value carries the list as
  it is at that moment, since a Python exception leaves the mutations done so far
  in place. All positions the functions compute are non-negative, so indices are
  natural numbers (Python's negative indices never arise from them).

  The elements are compared with Python's \<^verbatim>\<open><\<close> and \<^verbatim>\<open>>\<close>, which dispatch on
  the elements. The model takes the comparison \<open>lt\<close> as a parameter:
  \<^verbatim>\<open>a < b\<close> is \<open>lt a b\<close> and \<^verbatim>\<open>a > b\<close> is \<open>lt b a\<close>.
\<close>

datatype error = IndexError | StopIteration

definition ebind :: "'e + 'a \<Rightarrow> ('a \<Rightarrow> 'e + 'b) \<Rightarrow> 'e + 'b" where
  "ebind m f = (case m of Inl e \<Rightarrow> Inl e | Inr v \<Rightarrow> f v)"

definition getitem :: "'a list \<Rightarrow> nat \<Rightarrow> (error \<times> 'a list) + 'a" where
  "getitem heap i = (if i < length heap then Inr (heap ! i) else Inl (IndexError, heap))"

definition setitem :: "'a list \<Rightarrow> nat \<Rightarrow> 'a \<Rightarrow> (error \<times> 'a list) + 'a list" where
  "setitem heap i v = (if i < length heap then Inr (heap[i := v]) else Inl (IndexError, heap))"

definition list_pop :: "'a list \<Rightarrow> (error \<times> 'a list) + ('a \<times> 'a list)" where
  "list_pop heap = (if heap = [] then Inl (IndexError, heap) else Inr (last heap, butlast heap))"

lemma ebind_cong [fundef_cong]:
  "m = m' \<Longrightarrow> (\<And>v. m' = Inr v \<Longrightarrow> f v = f' v) \<Longrightarrow> ebind m f = ebind m' f'"
  by (cases m') (simp_all add: ebind_def)

lemma ebind_Inr [simp]: "ebind (Inr v) f = f v"
  by (simp add: ebind_def)

lemma ebind_Inl [simp]: "ebind (Inl e) f = Inl e"
  by (simp add: ebind_def)

lemma getitem_Inr [simp]: "i < length heap \<Longrightarrow> getitem heap i = Inr (heap ! i)"
  by (simp add: getitem_def)

lemma setitem_Inr [simp]: "i < length heap \<Longrightarrow> setitem heap i v = Inr (heap[i := v])"
  by (simp add: setitem_def)

section \<open>The sift routines\<close>

text \<open>
  \<^verbatim>\<open>_siftdown\<close> (lines 142-162). The loop carries \<open>heap\<close>, \<open>pos\<close> and \<open>child_pos\<close>;
  \<open>cur_item\<close> is held outside the list while its place is looked for.
\<close>

function siftdown_loop ::
  "('a \<Rightarrow> 'a \<Rightarrow> bool) \<Rightarrow> 'a list \<Rightarrow> 'a \<Rightarrow> nat \<Rightarrow> nat \<Rightarrow> (error \<times> 'a list) + ('a list \<times> nat)" where
  "siftdown_loop lt heap cur_item pos child_pos =
    (if child_pos < length heap then
       ebind (let right_pos = child_pos + 1 in
              if right_pos < length heap then
                ebind (getitem heap child_pos) (\<lambda>l.
                ebind (getitem heap right_pos) (\<lambda>r.
                  Inr (if lt l r then right_pos else child_pos)))
              else Inr child_pos)
         (\<lambda>child_pos.
            ebind (getitem heap child_pos) (\<lambda>c.
              if lt cur_item c then
                ebind (getitem heap child_pos) (\<lambda>c'.
                ebind (setitem heap pos c') (\<lambda>heap.
                  siftdown_loop lt heap cur_item child_pos (2 * child_pos + 1)))
              else Inr (heap, pos)))
     else Inr (heap, pos))"
  by pat_completeness auto
termination
  by (relation "measure (\<lambda>(lt, heap, cur_item, pos, child_pos). length heap - child_pos)")
     (auto simp: getitem_def setitem_def Let_def split: if_splits)

declare siftdown_loop.simps [simp del]

definition siftdown :: "('a \<Rightarrow> 'a \<Rightarrow> bool) \<Rightarrow> 'a list \<Rightarrow> nat \<Rightarrow> (error \<times> 'a list) + 'a list" where
  "siftdown lt heap pos =
     ebind (getitem heap pos) (\<lambda>cur_item.
     ebind (siftdown_loop lt heap cur_item pos (2 * pos + 1)) (\<lambda>(heap, pos).
       setitem heap pos cur_item))"

text \<open>\<^verbatim>\<open>_siftup\<close> (lines 122-139); \<^verbatim>\<open>(pos - 1) >> 1\<close> with \<open>pos > 0\<close> is \<open>(pos - 1) div 2\<close>.\<close>

function siftup_loop ::
  "('a \<Rightarrow> 'a \<Rightarrow> bool) \<Rightarrow> 'a list \<Rightarrow> 'a \<Rightarrow> nat \<Rightarrow> (error \<times> 'a list) + ('a list \<times> nat)" where
  "siftup_loop lt heap cur_item pos =
    (if pos > 0 then
       (let parent_pos = (pos - 1) div 2 in
        ebind (getitem heap parent_pos) (\<lambda>p.
          if lt p cur_item then
            ebind (getitem heap parent_pos) (\<lambda>p'.
            ebind (setitem heap pos p') (\<lambda>heap.
              siftup_loop lt heap cur_item parent_pos))
          else Inr (heap, pos)))
     else Inr (heap, pos))"
  by pat_completeness auto
termination
  by (relation "measure (\<lambda>(lt, heap, cur_item, pos). pos)") auto

declare siftup_loop.simps [simp del]

definition siftup :: "('a \<Rightarrow> 'a \<Rightarrow> bool) \<Rightarrow> 'a list \<Rightarrow> nat \<Rightarrow> (error \<times> 'a list) + 'a list" where
  "siftup lt heap pos =
     ebind (getitem heap pos) (\<lambda>cur_item.
     ebind (siftup_loop lt heap cur_item pos) (\<lambda>(heap, pos).
       setitem heap pos cur_item))"

section \<open>The heap operations\<close>

text \<open>\<^verbatim>\<open>heappush\<close> (lines 49-58). It returns nothing; the model returns the list.\<close>

definition heappush :: "('a \<Rightarrow> 'a \<Rightarrow> bool) \<Rightarrow> 'a list \<Rightarrow> 'a \<Rightarrow> (error \<times> 'a list) + 'a list" where
  "heappush lt heap item = (let heap = heap @ [item] in siftup lt heap (length heap - 1))"

text \<open>\<^verbatim>\<open>heappop\<close> (lines 60-73): the returned item and the list.\<close>

definition heappop :: "('a \<Rightarrow> 'a \<Rightarrow> bool) \<Rightarrow> 'a list \<Rightarrow> (error \<times> 'a list) + ('a \<times> 'a list)" where
  "heappop lt heap =
     ebind (list_pop heap) (\<lambda>(lastelt, heap).
       if heap \<noteq> [] then
         ebind (getitem heap 0) (\<lambda>return_item.
         ebind (setitem heap 0 lastelt) (\<lambda>heap.
         ebind (siftdown lt heap 0) (\<lambda>heap.
           Inr (return_item, heap))))
       else Inr (lastelt, heap))"

text \<open>\<^verbatim>\<open>heapreplace\<close> (lines 76-91).\<close>

definition heapreplace :: "('a \<Rightarrow> 'a \<Rightarrow> bool) \<Rightarrow> 'a list \<Rightarrow> 'a \<Rightarrow> (error \<times> 'a list) + ('a \<times> 'a list)" where
  "heapreplace lt heap item =
     ebind (getitem heap 0) (\<lambda>return_item.
     ebind (setitem heap 0 item) (\<lambda>heap.
     ebind (siftdown lt heap 0) (\<lambda>heap.
       Inr (return_item, heap))))"


text \<open>
  \<^verbatim>\<open>heapify\<close> (lines 107-119): \<^verbatim>\<open>reversed(range(n//2))\<close> is the list
  \<open>rev [0..<n div 2]\<close>, and the loop sifts down from each of its positions in turn.
\<close>

fun heapify_loop :: "('a \<Rightarrow> 'a \<Rightarrow> bool) \<Rightarrow> 'a list \<Rightarrow> nat list \<Rightarrow> (error \<times> 'a list) + 'a list" where
  "heapify_loop lt array [] = Inr array"
| "heapify_loop lt array (i # is) =
     ebind (siftdown lt array i) (\<lambda>array. heapify_loop lt array is)"

definition heapify :: "('a \<Rightarrow> 'a \<Rightarrow> bool) \<Rightarrow> 'a list \<Rightarrow> (error \<times> 'a list) + 'a list" where
  "heapify lt array = (let n = length array in heapify_loop lt array (rev [0..<n div 2]))"

section \<open>Orders and the heap invariant\<close>

text \<open>
  Elements are mutually comparable when \<open>lt\<close> is a strict weak order: irreflexive,
  transitive, and with a transitive \<open>\<ge>\<close>, where \<^verbatim>\<open>a >= b\<close> is \<open>\<not> lt a b\<close>.
  Integers, floating-point numbers other than NaN, strings and tuples of them
  are such.
\<close>

definition strict_weak_order :: "('a \<Rightarrow> 'a \<Rightarrow> bool) \<Rightarrow> bool" where
  "strict_weak_order lt =
     ((\<forall>a. \<not> lt a a) \<and> (\<forall>a b c. lt a b \<and> lt b c \<longrightarrow> lt a c)
      \<and> (\<forall>a b c. \<not> lt a b \<and> \<not> lt b c \<longrightarrow> \<not> lt a c))"

definition child :: "nat \<Rightarrow> nat \<Rightarrow> bool" where
  "child j c = (c = 2 * j + 1 \<or> c = 2 * j + 2)"

definition heap_from :: "('a \<Rightarrow> 'a \<Rightarrow> bool) \<Rightarrow> nat \<Rightarrow> 'a list \<Rightarrow> bool" where
  "heap_from lt k xs = (\<forall>j c. k \<le> j \<and> child j c \<and> c < length xs \<longrightarrow> \<not> lt (xs ! j) (xs ! c))"

definition down_inv :: "('a \<Rightarrow> 'a \<Rightarrow> bool) \<Rightarrow> nat \<Rightarrow> 'a list \<Rightarrow> nat \<Rightarrow> bool" where
  "down_inv lt k xs pos =
     ((\<forall>j c. k \<le> j \<and> j \<noteq> pos \<and> child j c \<and> c < length xs \<longrightarrow> \<not> lt (xs ! j) (xs ! c))
    \<and> (\<forall>j g. k \<le> j \<and> child j pos \<and> child pos g \<and> g < length xs \<longrightarrow> \<not> lt (xs ! j) (xs ! g)))"

text \<open>
  The max-heap invariant of the module's docstring:
  \<^verbatim>\<open>a[k] >= a[2*k+1]\<close> and \<^verbatim>\<open>a[k] >= a[2*k+2]\<close> for every \<open>k\<close> whose child index is
  in range.
\<close>

definition is_heap :: "('a \<Rightarrow> 'a \<Rightarrow> bool) \<Rightarrow> 'a list \<Rightarrow> bool" where
  "is_heap lt xs =
     (\<forall>i\<in>{0..<length xs}.
        (2 * i + 1 < length xs \<longrightarrow> \<not> lt (xs ! i) (xs ! (2 * i + 1))) \<and>
        (2 * i + 2 < length xs \<longrightarrow> \<not> lt (xs ! i) (xs ! (2 * i + 2))))"


definition bigger_child :: "('a \<Rightarrow> 'a \<Rightarrow> bool) \<Rightarrow> 'a list \<Rightarrow> nat \<Rightarrow> nat" where
  "bigger_child lt heap child_pos =
     (if child_pos + 1 < length heap \<and> lt (heap ! child_pos) (heap ! (child_pos + 1))
      then child_pos + 1 else child_pos)"

section \<open>Order and index lemmas\<close>

lemma swo_irrefl: "strict_weak_order lt \<Longrightarrow> \<not> lt a a"
  by (simp add: strict_weak_order_def)


lemma swo_asym: "strict_weak_order lt \<Longrightarrow> lt a b \<Longrightarrow> \<not> lt b a"
  unfolding strict_weak_order_def by blast

lemma swo_ge_trans: "strict_weak_order lt \<Longrightarrow> \<not> lt a b \<Longrightarrow> \<not> lt b c \<Longrightarrow> \<not> lt a c"
  unfolding strict_weak_order_def by blast

lemma child_inj: "child j c \<Longrightarrow> child j' c \<Longrightarrow> j = j'"
  by (auto simp: child_def)

lemma child_gt: "child j c \<Longrightarrow> j < c"
  by (auto simp: child_def)

lemma down_inv_step:
  assumes swo: "strict_weak_order lt"
    and inv: "down_inv lt k xs pos"
    and c: "child pos c" "c < length xs"
    and big: "\<And>c'. child pos c' \<Longrightarrow> c' < length xs \<Longrightarrow> \<not> lt (xs ! c) (xs ! c')"
    and lt: "lt (xs ! pos) (xs ! c)"
    and k: "k \<le> pos"
  shows "down_inv lt k (xs[pos := xs ! c, c := xs ! pos]) c"
proof -
  let ?ys = "xs[pos := xs ! c, c := xs ! pos]"
  have pc: "pos < c" "pos < length xs" using c child_gt by fastforce+
  have ys: "\<And>i. i < length xs \<Longrightarrow> ?ys ! i = (if i = c then xs ! pos else if i = pos then xs ! c else xs ! i)"
    using pc c by (simp add: nth_list_update)
  have a: "\<And>j d. k \<le> j \<Longrightarrow> j \<noteq> pos \<Longrightarrow> child j d \<Longrightarrow> d < length xs \<Longrightarrow> \<not> lt (xs ! j) (xs ! d)"
    using inv unfolding down_inv_def by blast
  have b: "\<And>j g. k \<le> j \<Longrightarrow> child j pos \<Longrightarrow> child pos g \<Longrightarrow> g < length xs \<Longrightarrow> \<not> lt (xs ! j) (xs ! g)"
    using inv unfolding down_inv_def by blast
  have A: "\<not> lt (?ys ! j) (?ys ! d)" if j: "k \<le> j" "j \<noteq> c" "child j d" "d < length xs" for j d
  proof -
    have jl: "j < length xs" using j child_gt by fastforce
    show ?thesis
    proof (cases "j = pos")
      case True
      show ?thesis
      proof (cases "d = c")
        case True
        with \<open>j = pos\<close> show ?thesis using ys[OF jl] ys[OF j(4)] pc swo_asym[OF swo lt] by simp
      next
        case False
        with \<open>j = pos\<close> j pc show ?thesis using ys[OF jl] ys[OF j(4)] big[of d] child_gt[OF j(3)] by simp
      qed
    next
      case False
      have dc: "d \<noteq> c" using False j(3) c(1) child_inj by blast
      show ?thesis
      proof (cases "d = pos")
        case True
        with False j dc show ?thesis using ys[OF jl] ys[OF j(4)] b[of j c] c by simp
      next
        case dp: False
        with False j dc show ?thesis using ys[OF jl] ys[OF j(4)] a[of j d] by simp
      qed
    qed
  qed
  have B: "\<not> lt (?ys ! j) (?ys ! g)" if j: "k \<le> j" "child j c" "child c g" "g < length xs" for j g
  proof -
    have jp: "j = pos" using j(2) c(1) child_inj by blast
    have g: "c < g" using j(3) child_gt by blast
    have "\<not> lt (xs ! c) (xs ! g)" using a[of c g] k pc j by simp
    then show ?thesis using ys[of pos] ys[OF j(4)] jp pc g by simp
  qed
  show ?thesis unfolding down_inv_def using A B by simp
qed

lemma down_inv_done:
  assumes swo: "strict_weak_order lt"
    and inv: "down_inv lt k xs pos"
    and big: "\<And>c. child pos c \<Longrightarrow> c < length xs \<Longrightarrow> \<not> lt (xs ! pos) (xs ! c)"
  shows "heap_from lt k xs"
  using inv big unfolding down_inv_def heap_from_def by blast

lemma down_inv_init: "heap_from lt (Suc pos) xs \<Longrightarrow> down_inv lt pos xs pos"
  unfolding down_inv_def heap_from_def
  by (metis child_gt Suc_leI le_neq_implies_less not_less)

section \<open>Sifting down\<close>

lemma siftdown_loop_unfold:
  "pos < length heap \<Longrightarrow>
   siftdown_loop lt heap cur_item pos child_pos =
    (if child_pos < length heap then
       (let c = (if child_pos + 1 < length heap \<and> lt (heap ! child_pos) (heap ! (child_pos + 1))
                 then child_pos + 1 else child_pos)
        in if lt cur_item (heap ! c)
           then siftdown_loop lt (heap[pos := heap ! c]) cur_item c (2 * c + 1)
           else Inr (heap, pos))
     else Inr (heap, pos))"
  by (subst siftdown_loop.simps) (simp add: Let_def)

lemma siftdown_loop_induct [consumes 1, case_names step]:
  assumes "pos < length heap"
  assumes step: "\<And>heap pos child_pos.
     pos < length heap \<Longrightarrow>
     (\<And>c. child_pos < length heap \<Longrightarrow> c = bigger_child lt heap child_pos \<Longrightarrow>
        lt cur_item (heap ! c) \<Longrightarrow> P (heap[pos := heap ! c]) c (2 * c + 1)) \<Longrightarrow>
     P heap pos child_pos"
  shows "P heap pos child_pos"
  using assms(1)
proof (induction "length heap - child_pos" arbitrary: heap pos child_pos rule: less_induct)
  case less
  show ?case
  proof (rule step[OF less.prems])
    fix c
    assume a: "child_pos < length heap" "c = bigger_child lt heap child_pos" "lt cur_item (heap ! c)"
    then have c: "c < length heap" "child_pos \<le> c" by (auto simp: bigger_child_def)
    show "P (heap[pos := heap ! c]) c (2 * c + 1)"
      by (rule less.hyps) (use a c in auto)
  qed
qed

lemma bigger_child_props:
  assumes swo: "strict_weak_order lt" and "2 * pos + 1 < length xs"
  shows "child pos (bigger_child lt xs (2 * pos + 1))"
    and "bigger_child lt xs (2 * pos + 1) < length xs"
    and "child pos c' \<Longrightarrow> c' < length xs \<Longrightarrow> \<not> lt (xs ! bigger_child lt xs (2 * pos + 1)) (xs ! c')"
  using assms swo_irrefl[OF swo] swo_asym[OF swo]
  by (auto simp: bigger_child_def child_def)

lemma siftdown_loop_mset:
  assumes "pos < length heap" "pos < child_pos"
  shows "\<exists>heap' pos'. siftdown_loop lt heap cur_item pos child_pos = Inr (heap', pos')
      \<and> length heap' = length heap \<and> pos' < length heap
      \<and> mset (heap'[pos' := cur_item]) = mset (heap[pos := cur_item])"
  using assms
proof (induction heap pos child_pos rule: siftdown_loop_induct[where lt = lt and cur_item = cur_item])
  case (step heap pos child_pos)
  show ?case
  proof (cases "child_pos < length heap \<and> lt cur_item (heap ! bigger_child lt heap child_pos)")
    case False
    with step(1) show ?thesis by (auto simp: siftdown_loop_unfold bigger_child_def Let_def)
  next
    case True
    define c where "c = bigger_child lt heap child_pos"
    have c: "c < length heap" "pos < c" using True step.prems by (auto simp: c_def bigger_child_def)
    have unf: "siftdown_loop lt heap cur_item pos child_pos =
               siftdown_loop lt (heap[pos := heap ! c]) cur_item c (2 * c + 1)"
      using True step(1) by (subst siftdown_loop_unfold) (auto simp: c_def bigger_child_def Let_def)
    let ?F = "heap[pos := cur_item]"
    have "heap[pos := heap ! c, c := cur_item] = ?F[c := ?F ! pos, pos := ?F ! c]"
      using c step(1) by (simp add: list_update_swap)
    also have "mset \<dots> = mset ?F"
      by (rule mset_swap) (use c step(1) in auto)
    finally have m: "mset (heap[pos := heap ! c, c := cur_item]) = mset ?F" .
    from step(2)[OF _ c_def] True c
    obtain heap' pos' where "siftdown_loop lt (heap[pos := heap ! c]) cur_item c (2 * c + 1) = Inr (heap', pos')"
      "length heap' = length heap" "pos' < length heap"
      "mset (heap'[pos' := cur_item]) = mset (heap[pos := heap ! c, c := cur_item])"
      by (auto simp: c_def)
    with unf m show ?thesis by simp
  qed
qed

lemma siftdown_loop_heap:
  assumes swo: "strict_weak_order lt"
    and "pos < length heap" "child_pos = 2 * pos + 1"
    and "k \<le> pos" "down_inv lt k (heap[pos := cur_item]) pos"
    and "siftdown_loop lt heap cur_item pos child_pos = Inr (heap', pos')"
  shows "heap_from lt k (heap'[pos' := cur_item])"
  using assms(2-)
proof (induction heap pos child_pos rule: siftdown_loop_induct[where lt = lt and cur_item = cur_item])
  case (step heap pos child_pos)
  let ?F = "heap[pos := cur_item]"
  define c where "c = bigger_child lt heap child_pos"
  have Fpos: "?F ! pos = cur_item" using step(1) by simp
  have Fc: "?F ! d = heap ! d" if "child pos d" for d using child_gt[OF that] by simp
  show ?case
  proof (cases "child_pos < length heap")
    case False
    then have "heap' = heap" "pos' = pos" using step by (auto simp: siftdown_loop_unfold)
    moreover have "heap_from lt k ?F"
      by (rule down_inv_done[OF swo step.prems(3)]) (use False step.prems(1) in \<open>auto simp: child_def\<close>)
    ultimately show ?thesis by simp
  next
    case cp: True
    then have cp': "2 * pos + 1 < length heap" using step.prems by simp
    have c2: "c = bigger_child lt heap (2 * pos + 1)" using c_def step.prems(1) by simp
    note bc = bigger_child_props[OF swo cp', folded c2]
    show ?thesis
    proof (cases "lt cur_item (heap ! c)")
      case False
      then have "heap' = heap" "pos' = pos"
        using step cp by (auto simp: siftdown_loop_unfold c_def bigger_child_def Let_def)
      moreover have "heap_from lt k ?F"
      proof (rule down_inv_done[OF swo step.prems(3)])
        fix d assume d: "child pos d" "d < length ?F"
        then have "\<not> lt (heap ! c) (heap ! d)" using bc(3)[of d] by simp
        with False have "\<not> lt cur_item (heap ! d)" using swo_ge_trans[OF swo] by blast
        then show "\<not> lt (?F ! pos) (?F ! d)" using Fpos Fc[OF d(1)] by simp
      qed
      ultimately show ?thesis by simp
    next
      case True
      have unf: "siftdown_loop lt heap cur_item pos child_pos =
               siftdown_loop lt (heap[pos := heap ! c]) cur_item c (2 * c + 1)"
        using True step(1) cp by (subst siftdown_loop_unfold) (auto simp: c_def bigger_child_def Let_def)
      have pc: "pos < c" using bc(1) child_gt by blast
      have eq: "heap[pos := heap ! c, c := cur_item] = ?F[pos := ?F ! c, c := ?F ! pos]"
        using pc step(1) by simp
      have "down_inv lt k (?F[pos := ?F ! c, c := ?F ! pos]) c"
      proof (rule down_inv_step[OF swo step.prems(3)])
        show "child pos c" by (rule bc(1))
        show "c < length ?F" using bc(2) by simp
        show "lt (?F ! pos) (?F ! c)" using True Fpos Fc[OF bc(1)] by simp
        show "k \<le> pos" by (rule step.prems(2))
        fix d assume d: "child pos d" "d < length ?F"
        then show "\<not> lt (?F ! c) (?F ! d)" using bc(3)[of d] Fc[OF bc(1)] Fc[OF d(1)] by simp
      qed
      then have inv': "down_inv lt k (heap[pos := heap ! c, c := cur_item]) c" using eq by simp
      show ?thesis
        by (rule step(2)[OF cp c_def True]) (use inv' pc step.prems unf in auto)
    qed
  qed
qed

section \<open>Sifting up\<close>

lemma siftup_loop_unfold:
  "pos < length heap \<Longrightarrow>
   siftup_loop lt heap cur_item pos =
    (if pos > 0 \<and> lt (heap ! ((pos - 1) div 2)) cur_item
     then siftup_loop lt (heap[pos := heap ! ((pos - 1) div 2)]) cur_item ((pos - 1) div 2)
     else Inr (heap, pos))"
  by (subst siftup_loop.simps) (auto simp: Let_def)

lemma child_parent: "0 < c \<Longrightarrow> child ((c - 1) div 2) c"
  unfolding child_def by presburger





lemma siftup_loop_mset:
  assumes "pos < length heap"
  shows "\<exists>heap' pos'. siftup_loop lt heap cur_item pos = Inr (heap', pos')
      \<and> length heap' = length heap \<and> pos' < length heap
      \<and> mset (heap'[pos' := cur_item]) = mset (heap[pos := cur_item])"
  using assms
proof (induction pos arbitrary: heap rule: less_induct)
  case (less pos)
  define pp where "pp = (pos - 1) div 2"
  show ?case
  proof (cases "pos > 0 \<and> lt (heap ! pp) cur_item")
    case False
    with less.prems show ?thesis by (subst siftup_loop_unfold) (auto simp: pp_def)
  next
    case True
    then have ppl: "pp < pos" unfolding pp_def by auto
    have unf: "siftup_loop lt heap cur_item pos = siftup_loop lt (heap[pos := heap ! pp]) cur_item pp"
      using True less.prems by (subst siftup_loop_unfold) (auto simp: pp_def)
    let ?F = "heap[pos := cur_item]"
    have "heap[pos := heap ! pp, pp := cur_item] = ?F[pp := ?F ! pos, pos := ?F ! pp]"
      using ppl less.prems by (intro nth_equalityI) (auto simp: nth_list_update)
    also have "mset \<dots> = mset ?F"
      by (rule mset_swap) (use ppl less.prems in auto)
    finally have m: "mset (heap[pos := heap ! pp, pp := cur_item]) = mset ?F" .
    from less.IH[OF ppl, of "heap[pos := heap ! pp]"] ppl less.prems
    obtain heap' pos' where "siftup_loop lt (heap[pos := heap ! pp]) cur_item pp = Inr (heap', pos')"
      "length heap' = length heap" "pos' < length heap"
      "mset (heap'[pos' := cur_item]) = mset (heap[pos := heap ! pp, pp := cur_item])"
      by auto
    with unf m show ?thesis by simp
  qed
qed


section \<open>The heap operations keep the invariant\<close>

lemma is_heap_iff: "is_heap lt xs \<longleftrightarrow> heap_from lt 0 xs"
proof
  assume h: "is_heap lt xs"
  show "heap_from lt 0 xs"
    unfolding heap_from_def
  proof (intro allI impI)
    fix j c assume jc: "0 \<le> j \<and> child j c \<and> c < length xs"
    then have "j < length xs" using child_gt by fastforce
    with h jc show "\<not> lt (xs ! j) (xs ! c)" unfolding is_heap_def child_def by auto
  qed
next
  assume "heap_from lt 0 xs"
  then show "is_heap lt xs" unfolding heap_from_def is_heap_def child_def by simp
qed

lemma heap_root_max_nth:
  assumes swo: "strict_weak_order lt" and h: "is_heap lt xs"
  shows "i < length xs \<Longrightarrow> \<not> lt (xs ! 0) (xs ! i)"
proof (induction i rule: less_induct)
  case (less i)
  show ?case
  proof (cases "i = 0")
    case True
    then show ?thesis using swo_irrefl[OF swo] by simp
  next
    case False
    define p where "p = (i - 1) div 2"
    have cp: "child p i" using False child_parent by (simp add: p_def)
    then have pi: "p < i" by (rule child_gt)
    have "\<not> lt (xs ! p) (xs ! i)"
      using h cp less.prems unfolding is_heap_iff heap_from_def by simp
    moreover have "\<not> lt (xs ! 0) (xs ! p)" using less.IH[OF pi] pi less.prems by simp
    ultimately show ?thesis using swo_ge_trans[OF swo] by blast
  qed
qed

lemma heap_root_max:
  "strict_weak_order lt \<Longrightarrow> is_heap lt xs \<Longrightarrow> x \<in> set xs \<Longrightarrow> \<not> lt (xs ! 0) x"
  by (auto simp: in_set_conv_nth heap_root_max_nth)

lemma siftdown_ok:
  assumes "pos < length heap"
  shows "\<exists>heap'. siftdown lt heap pos = Inr heap' \<and> length heap' = length heap
           \<and> mset heap' = mset heap"
proof -
  from siftdown_loop_mset[of pos heap "2 * pos + 1" lt "heap ! pos"] assms
  obtain heap' pos' where "siftdown_loop lt heap (heap ! pos) pos (2 * pos + 1) = Inr (heap', pos')"
    "length heap' = length heap" "pos' < length heap"
    "mset (heap'[pos' := heap ! pos]) = mset heap"
    by auto
  with assms show ?thesis by (simp add: siftdown_def)
qed

lemma siftdown_IndexError:
  "\<not> pos < length heap \<Longrightarrow> siftdown lt heap pos = Inl (IndexError, heap)"
  by (simp add: siftdown_def getitem_def)

lemma siftdown_heap:
  assumes swo: "strict_weak_order lt"
    and pos: "pos < length heap"
    and h: "heap_from lt (Suc pos) heap"
    and r: "siftdown lt heap pos = Inr heap'"
  shows "heap_from lt pos heap'"
proof -
  from siftdown_loop_mset[of pos heap "2 * pos + 1" lt "heap ! pos"] pos
  obtain h1 p1 where l: "siftdown_loop lt heap (heap ! pos) pos (2 * pos + 1) = Inr (h1, p1)"
    "length h1 = length heap" "p1 < length heap"
    by auto
  with r pos have heap': "heap' = h1[p1 := heap ! pos]" by (simp add: siftdown_def)
  have "down_inv lt pos (heap[pos := heap ! pos]) pos" using down_inv_init[OF h] by simp
  from siftdown_loop_heap[OF swo pos refl order_refl this l(1)] heap' show ?thesis by simp
qed

lemma siftup_ok:
  assumes "pos < length heap"
  shows "\<exists>heap'. siftup lt heap pos = Inr heap' \<and> length heap' = length heap
           \<and> mset heap' = mset heap"
proof -
  from siftup_loop_mset[of pos heap lt "heap ! pos"] assms
  obtain heap' pos' where "siftup_loop lt heap (heap ! pos) pos = Inr (heap', pos')"
    "length heap' = length heap" "pos' < length heap"
    "mset (heap'[pos' := heap ! pos]) = mset heap"
    by auto
  with assms show ?thesis by (simp add: siftup_def)
qed


subsection \<open>heappush\<close>

lemma heappush_ok:
  "\<exists>heap'. heappush lt heap item = Inr heap' \<and> length heap' = Suc (length heap)
      \<and> mset heap' = add_mset item (mset heap)"
  using siftup_ok[of "length heap" "heap @ [item]" lt] by (simp add: heappush_def)


subsection \<open>heapify\<close>

lemma heapify_loop_ok:
  "k \<le> length heap \<Longrightarrow>
   \<exists>heap'. heapify_loop lt heap (rev [0..<k]) = Inr heap' \<and> length heap' = length heap
      \<and> mset heap' = mset heap"
proof (induction k arbitrary: heap)
  case 0
  then show ?case by simp
next
  case (Suc k)
  from siftdown_ok[of k heap lt] Suc.prems
  obtain h1 where h1: "siftdown lt heap k = Inr h1" "length h1 = length heap" "mset h1 = mset heap"
    by auto
  with Suc.IH[of h1] Suc.prems show ?case by auto
qed

lemma heapify_loop_heap:
  assumes swo: "strict_weak_order lt"
  shows "k \<le> length heap \<Longrightarrow> heap_from lt k heap \<Longrightarrow>
     heapify_loop lt heap (rev [0..<k]) = Inr heap' \<Longrightarrow> heap_from lt 0 heap'"
proof (induction k arbitrary: heap)
  case 0
  then show ?case by simp
next
  case (Suc k)
  from siftdown_ok[of k heap lt] Suc.prems
  obtain h1 where h1: "siftdown lt heap k = Inr h1" "length h1 = length heap"
    by auto
  have "heap_from lt k h1"
    by (rule siftdown_heap[OF swo _ Suc.prems(2) h1(1)]) (use Suc.prems in simp)
  with Suc.IH[of h1] h1 Suc.prems show ?case by simp
qed

lemma heapify_ok:
  "\<exists>heap'. heapify lt heap = Inr heap' \<and> length heap' = length heap \<and> mset heap' = mset heap"
  using heapify_loop_ok[of "length heap div 2" heap lt] by (simp add: heapify_def)

lemma heapify_heap:
  assumes "strict_weak_order lt" "heapify lt heap = Inr heap'"
  shows "is_heap lt heap'"
  unfolding is_heap_iff
proof (rule heapify_loop_heap[OF assms(1), of "length heap div 2" heap])
  show "heap_from lt (length heap div 2) heap"
    unfolding heap_from_def child_def by auto
qed (use assms in \<open>auto simp: heapify_def\<close>)

subsection \<open>heappop and heapreplace\<close>

lemma heappop_empty: "heappop lt [] = Inl (IndexError, [])"
  by (simp add: heappop_def list_pop_def)

lemma heapreplace_empty: "heapreplace lt [] item = Inl (IndexError, [])"
  by (simp add: heapreplace_def getitem_def)

lemma heapreplace_ok:
  assumes "heap \<noteq> []"
  shows "\<exists>heap'. heapreplace lt heap item = Inr (heap ! 0, heap') \<and> length heap' = length heap
           \<and> mset heap' = mset (heap[0 := item])"
  using siftdown_ok[of 0 "heap[0 := item]" lt] assms by (auto simp: heapreplace_def)

lemma heap_from_update_root:
  "heap_from lt 0 heap \<Longrightarrow> heap_from lt (Suc 0) (heap[0 := item])"
  unfolding heap_from_def
  by (metis Suc_le_eq child_gt length_list_update less_imp_le_nat less_nat_zero_code
      not_less_zero nth_list_update_neq zero_less_iff_neq_zero)

lemma heapreplace_heap:
  assumes swo: "strict_weak_order lt" and h: "is_heap lt heap"
    and r: "heapreplace lt heap item = Inr (x, heap')"
  shows "is_heap lt heap'"
proof -
  have ne: "heap \<noteq> []" using r heapreplace_empty[of lt item] by auto
  then have sd: "siftdown lt (heap[0 := item]) 0 = Inr heap'"
    using r siftdown_ok[of 0 "heap[0 := item]" lt] by (auto simp: heapreplace_def)
  show ?thesis
    unfolding is_heap_iff
    by (rule siftdown_heap[OF swo _ _ sd])
       (use ne h in \<open>auto simp: is_heap_iff intro: heap_from_update_root\<close>)
qed

lemma heappop_ok:
  assumes "heap \<noteq> []"
  shows "\<exists>heap'. heappop lt heap = Inr (heap ! 0, heap') \<and> Suc (length heap') = length heap
           \<and> mset heap = add_mset (heap ! 0) (mset heap')"
proof (cases "butlast heap = []")
  case True
  with assms have "heap = [last heap]" by (metis append_butlast_last_id append_Nil)
  then have "heap ! 0 = last heap" "mset heap = {#last heap#}" "length heap = 1"
    by (metis nth_Cons_0, metis mset_single_iff_right mset.simps(2) mset_zero_iff_right add_mset_eq_single, metis One_nat_def length_Cons list.size(3))
  with True assms show ?thesis by (simp add: heappop_def list_pop_def)
next
  case False
  let ?b = "butlast heap"
  have l2: "Suc 0 < length heap" using False by (cases heap) (auto split: if_splits)
  from siftdown_ok[of 0 "?b[0 := last heap]" lt] l2
  obtain heap' where h': "siftdown lt (?b[0 := last heap]) 0 = Inr heap'"
    "length heap' = length ?b" "mset heap' = mset (?b[0 := last heap])"
    by auto
  have b0: "?b ! 0 = heap ! 0" using l2 by (simp add: nth_butlast)
  have "mset heap = mset (?b @ [last heap])" using assms by simp
  also have "\<dots> = add_mset (last heap) (mset ?b)" by simp
  also have "mset ?b = add_mset (?b ! 0) (mset ?b - {#?b ! 0#})"
    using l2 by simp
  finally have "mset heap = add_mset (heap ! 0) (mset (?b[0 := last heap]))"
    using l2 b0 by (simp add: mset_update)
  with h' False assms b0 l2 show ?thesis by (simp add: heappop_def list_pop_def)
qed

lemma heappop_heap:
  assumes swo: "strict_weak_order lt" and h: "is_heap lt heap"
    and r: "heappop lt heap = Inr (x, heap')"
  shows "is_heap lt heap'"
proof -
  have ne: "heap \<noteq> []" using r heappop_empty[of lt] by auto
  show ?thesis
  proof (cases "butlast heap = []")
    case True
    with r ne have "heap' = []" by (simp add: heappop_def list_pop_def)
    then show ?thesis by (simp add: is_heap_def)
  next
    case False
    let ?b = "butlast heap"
    have l2: "Suc 0 < length heap" using False by (cases heap) (auto split: if_splits)
    have sd: "siftdown lt (?b[0 := last heap]) 0 = Inr heap'"
      using r ne False l2 siftdown_ok[of 0 "?b[0 := last heap]" lt]
      by (auto simp: heappop_def list_pop_def)
    have "heap_from lt 0 ?b"
      unfolding heap_from_def
    proof (intro allI impI)
      fix j c assume jc: "0 \<le> j \<and> child j c \<and> c < length ?b"
      then have "j < c" "c < length heap - 1" using child_gt by auto
      then have "?b ! j = heap ! j" "?b ! c = heap ! c" "c < length heap"
        by (simp_all add: nth_butlast)
      with h jc show "\<not> lt (?b ! j) (?b ! c)" unfolding is_heap_iff heap_from_def by simp
    qed
    then have "heap_from lt (Suc 0) (?b[0 := last heap])" by (rule heap_from_update_root)
    then show ?thesis
      unfolding is_heap_iff using l2 by (intro siftdown_heap[OF swo _ _ sd]) auto
  qed
qed

section \<open>Popping until the list is empty\<close>

lemma swo_linorder: "strict_weak_order ((<) :: 'a::linorder \<Rightarrow> 'a \<Rightarrow> bool)"
  unfolding strict_weak_order_def by auto

text \<open>
  Repeated \<open>heappop\<close> until the list is empty, the loop
  \<^verbatim>\<open>while heap: out.append(heappop(heap))\<close> of a caller; the result is the sequence
  of popped values.
\<close>

function heappop_all :: "('a \<Rightarrow> 'a \<Rightarrow> bool) \<Rightarrow> 'a list \<Rightarrow> (error \<times> 'a list) + 'a list" where
  "heappop_all lt heap =
     (if heap \<noteq> [] then
        ebind (heappop lt heap) (\<lambda>(x, heap).
        ebind (heappop_all lt heap) (\<lambda>out. Inr (x # out)))
      else Inr [])"
  by pat_completeness auto
termination
proof (relation "measure (\<lambda>(lt, heap). length heap)")
  fix lt :: "'a \<Rightarrow> 'a \<Rightarrow> bool" and heap v x y
  assume "heap \<noteq> []" "heappop lt heap = Inr v" "(x, y) = v"
  with heappop_ok[of heap lt] show "((lt, y), (lt, heap)) \<in> measure (\<lambda>(lt, heap). length heap)"
    by auto
qed simp

declare heappop_all.simps [simp del]

lemma heappop_all_sorted:
  assumes swo: "strict_weak_order lt"
  shows "is_heap lt heap \<Longrightarrow>
    \<exists>out. heappop_all lt heap = Inr out \<and> mset out = mset heap
       \<and> sorted_wrt (\<lambda>a b. \<not> lt a b) out"
proof (induction "length heap" arbitrary: heap)
  case 0
  then show ?case by (simp add: heappop_all.simps)
next
  case (Suc n)
  then have ne: "heap \<noteq> []" by auto
  from heappop_ok[OF ne, of lt]
  obtain heap' where h: "heappop lt heap = Inr (heap ! 0, heap')" "Suc (length heap') = length heap"
    "mset heap = add_mset (heap ! 0) (mset heap')"
    by auto
  have h': "is_heap lt heap'" by (rule heappop_heap[OF swo Suc.prems h(1)])
  from Suc.hyps(1)[OF _ h'] h(2) Suc.hyps(2)
  obtain out where out: "heappop_all lt heap' = Inr out" "mset out = mset heap'"
    "sorted_wrt (\<lambda>a b. \<not> lt a b) out"
    by auto
  have "set out \<subseteq> set heap"
    using out(2) h(3) by (metis mset_eq_setD set_mset_add_mset_insert set_mset_mset subset_insertI)
  then have "\<forall>y\<in>set out. \<not> lt (heap ! 0) y"
    using heap_root_max[OF swo Suc.prems] by blast
  with out h ne show ?case
    by (subst heappop_all.simps) simp
qed

lemma sorted_desc_unique:
  fixes out :: "'a::linorder list"
  assumes "sorted_wrt (\<lambda>a b. \<not> a < b) out" "mset out = mset xs"
  shows "out = rev (sort xs)"
proof -
  have "sorted_wrt (\<lambda>a b. b \<le> a) out"
    using assms(1) by (simp add: not_less)
  then have "sorted (rev out)" by (simp add: sorted_wrt_rev)
  moreover have "mset (rev out) = mset xs" using assms(2) by simp
  ultimately have "sort xs = rev out" by (rule properties_for_sort[rotated])
  then show ?thesis by simp
qed

section \<open>merge\<close>

text \<open>
  \<^verbatim>\<open>merge\<close> (lines 166-234) is a generator; the model returns the list of the values
  it yields. An input iterable is the finite list of its elements, and the bound
  method \<^verbatim>\<open>next\<close> of its iterator is the list of the elements not consumed yet:
  \<^verbatim>\<open>next()\<close> raises \<^verbatim>\<open>StopIteration\<close> on the empty list and otherwise returns the
  first element and leaves the rest. Each iterator is referenced by one record only,
  so the record carries that list by value. The parameter \<^verbatim>\<open>reverse\<close> is accepted and
  never read. The two branches of \<^verbatim>\<open>merge\<close>, without and with a key function, have
  records of different shapes and are the two functions \<open>merge_nokey\<close> and
  \<open>merge_key\<close> of the model.

  The records of the heap are the Python lists \<^verbatim>\<open>[value, order, next]\<close> when
  \<^verbatim>\<open>key is None\<close> and \<^verbatim>\<open>[key(value), order, value, next]\<close> otherwise. Python compares
  lists lexicographically: the first elements when they differ (\<^verbatim>\<open>==\<close>), else the
  second ones. The records of one heap have different \<^verbatim>\<open>order\<close>, so a comparison never
  reaches the third element. Values and keys are taken from a linear order.
\<close>

definition rec_lt :: "'k::linorder \<times> nat \<times> 'c \<Rightarrow> 'k \<times> nat \<times> 'c \<Rightarrow> bool" where
  "rec_lt r s =
     (case r of (v, order, rest) \<Rightarrow> case s of (v', order', rest') \<Rightarrow>
        if v \<noteq> v' then v < v' else order < order')"

text \<open>The branch \<^verbatim>\<open>if key is None\<close> (lines 181-207). \<^verbatim>\<open>heapify(h)\<close> is inside the \<^verbatim>\<open>for\<close> loop.\<close>

fun merge_init ::
  "('a::linorder \<times> nat \<times> 'a list) list \<Rightarrow> (nat \<times> 'a list) list \<Rightarrow>
   (error \<times> ('a \<times> nat \<times> 'a list) list) + ('a \<times> nat \<times> 'a list) list" where
  "merge_init h [] = Inr h"
| "merge_init h ((order, it) # rest) =
     ebind (heapify rec_lt (case it of [] \<Rightarrow> h | x # next \<Rightarrow> h @ [(x, order, next)]))
       (\<lambda>h. merge_init h rest)"

text \<open>The measure of the merge loops: the elements not consumed yet, and the records.\<close>

definition rec_size :: "'a \<times> nat \<times> 'a list \<Rightarrow> nat" where
  "rec_size r = Suc (length (snd (snd r)))"

lemma sum_list_mset_cong:
  fixes f :: "'a \<Rightarrow> nat"
  assumes "mset xs = mset ys"
  shows "sum_list (map f xs) = sum_list (map f ys)"
proof -
  have "sum_mset (image_mset f (mset xs)) = sum_mset (image_mset f (mset ys))"
    using assms by simp
  then show ?thesis by (simp only: mset_map[symmetric] sum_mset_sum_list)
qed

lemma heappop_measure:
  fixes f :: "'a \<Rightarrow> nat"
  assumes "heappop lt h = Inr (x, h')"
  shows "sum_list (map f h) = f x + sum_list (map f h')"
proof -
  have ne: "h \<noteq> []" using assms by (auto simp: heappop_def list_pop_def)
  from heappop_ok[OF ne, of lt] assms have "mset h = mset (x # h')" by auto
  from sum_list_mset_cong[OF this, of f] show ?thesis by simp
qed

lemma heapreplace_measure:
  fixes f :: "'a \<Rightarrow> nat"
  assumes "heapreplace lt h item = Inr (x, h')"
  shows "sum_list (map f h') = sum_list (map f (h[0 := item]))"
proof -
  have ne: "h \<noteq> []" using assms by (auto simp: heapreplace_def getitem_def)
  from heapreplace_ok[OF ne, of lt item] assms have "mset h' = mset (h[0 := item])" by auto
  from sum_list_mset_cong[OF this, of f] show ?thesis .
qed

lemma sum_list_update_root:
  fixes f :: "'a \<Rightarrow> nat"
  shows "h \<noteq> [] \<Longrightarrow> sum_list (map f (h[0 := r])) + f (h ! 0) = sum_list (map f h) + f r"
  by (cases h) auto

text \<open>
  The loops of lines 189-197. \<open>inner\<close> tells that control is inside \<^verbatim>\<open>while True\<close>,
  where the test \<^verbatim>\<open>len(h) > 1\<close> is not made. \<^verbatim>\<open>s\<close> is the list object \<^verbatim>\<open>h[0]\<close> itself, so
  \<^verbatim>\<open>s[0] = next()\<close> updates \<^verbatim>\<open>h[0]\<close> in place before \<^verbatim>\<open>heapreplace(h, s)\<close>. When
  \<^verbatim>\<open>next()\<close> raises \<^verbatim>\<open>StopIteration\<close> the handler pops the heap and the outer test is
  made again. The result is the values yielded and the heap left.
\<close>

function merge_loop ::
  "bool \<Rightarrow> ('a::linorder \<times> nat \<times> 'a list) list \<Rightarrow>
   (error \<times> ('a \<times> nat \<times> 'a list) list) + ('a list \<times> ('a \<times> nat \<times> 'a list) list)" where
  "merge_loop inner h =
     (if inner \<or> length h > 1 then
        ebind (getitem h 0) (\<lambda>(value, order, next).
          case next of
            [] \<Rightarrow>
              ebind (heappop rec_lt h) (\<lambda>(popped, h).
              ebind (merge_loop False h) (\<lambda>(out, h). Inr (value # out, h)))
          | v # next' \<Rightarrow>
              ebind (setitem h 0 (v, order, next')) (\<lambda>h.
              ebind (heapreplace rec_lt h (v, order, next')) (\<lambda>(replaced, h).
              ebind (merge_loop True h) (\<lambda>(out, h). Inr (value # out, h)))))
      else Inr ([], h))"
  by pat_completeness auto
termination
proof (relation "measure (\<lambda>(inner, h). sum_list (map rec_size h))", goal_cases)
  case 1
  show ?case by simp
next
  case (2 inner h s "value" rest order "next" popd popped h')
  then show ?case
    using heappop_measure[of rec_lt h popped h' rec_size] by (simp add: rec_size_def)
next
  case (3 inner h s "value" rest order "next" v next' h1 repl replaced h2)
  then have ne: "h \<noteq> []" and h0: "h ! 0 = (value, order, v # next')" and h1: "h1 = h[0 := (v, order, next')]"
    by (auto simp: getitem_def setitem_def split: if_splits)
  from 3 h1 heapreplace_measure[of rec_lt h1 "(v, order, next')" replaced h2 rec_size]
  have "sum_list (map rec_size h2) = sum_list (map rec_size (h[0 := (v, order, next')]))"
    by simp
  with sum_list_update_root[OF ne, of rec_size "(v, order, next')"] h0
  show ?case by (simp add: rec_size_def)
qed

declare merge_loop.simps [simp del]

text \<open>Lines 198-206: the last iterator is drained without the heap.\<close>

definition merge_tail ::
  "('a \<times> nat \<times> 'a list) list \<Rightarrow> (error \<times> ('a \<times> nat \<times> 'a list) list) + 'a list" where
  "merge_tail h =
     (if h \<noteq> [] then ebind (getitem h 0) (\<lambda>(value, order, next). Inr (value # next))
      else Inr [])"

definition merge_nokey ::
  "bool \<Rightarrow> 'a::linorder list list \<Rightarrow> (error \<times> ('a \<times> nat \<times> 'a list) list) + 'a list" where
  "merge_nokey reverse iterables =
     ebind (merge_init [] (enumerate 0 iterables)) (\<lambda>h.
     ebind (merge_loop False h) (\<lambda>(out, h).
     ebind (merge_tail h) (\<lambda>rest. Inr (out @ rest))))"

text \<open>
  The branch with a key function (lines 208-234). Here \<^verbatim>\<open>heapify(h)\<close> comes after the
  \<^verbatim>\<open>for\<close> loop. \<^verbatim>\<open>s[0] = key(value)\<close> and \<^verbatim>\<open>s[2] = value\<close> update the record \<^verbatim>\<open>h[0]\<close> in
  place.
\<close>

fun merge_key_init ::
  "('a \<Rightarrow> 'k) \<Rightarrow> ('k \<times> nat \<times> 'a \<times> 'a list) list \<Rightarrow> (nat \<times> 'a list) list \<Rightarrow>
   ('k \<times> nat \<times> 'a \<times> 'a list) list" where
  "merge_key_init key h [] = h"
| "merge_key_init key h ((order, it) # rest) =
     merge_key_init key
       (case it of [] \<Rightarrow> h | value # next \<Rightarrow> h @ [(key value, order, value, next)]) rest"

definition key_rec_size :: "'k \<times> nat \<times> 'a \<times> 'a list \<Rightarrow> nat" where
  "key_rec_size r = Suc (length (snd (snd (snd r))))"

function merge_key_loop ::
  "('a \<Rightarrow> 'k::linorder) \<Rightarrow> bool \<Rightarrow> ('k \<times> nat \<times> 'a \<times> 'a list) list \<Rightarrow>
   (error \<times> ('k \<times> nat \<times> 'a \<times> 'a list) list) + ('a list \<times> ('k \<times> nat \<times> 'a \<times> 'a list) list)" where
  "merge_key_loop key inner h =
     (if inner \<or> length h > 1 then
        ebind (getitem h 0) (\<lambda>(key_value, order, value, next).
          case next of
            [] \<Rightarrow>
              ebind (heappop rec_lt h) (\<lambda>(popped, h).
              ebind (merge_key_loop key False h) (\<lambda>(out, h). Inr (value # out, h)))
          | v # next' \<Rightarrow>
              ebind (setitem h 0 (key v, order, v, next')) (\<lambda>h.
              ebind (heapreplace rec_lt h (key v, order, v, next')) (\<lambda>(replaced, h).
              ebind (merge_key_loop key True h) (\<lambda>(out, h). Inr (value # out, h)))))
      else Inr ([], h))"
  by pat_completeness auto
termination
proof (relation "measure (\<lambda>(key, inner, h). sum_list (map key_rec_size h))", goal_cases)
  case 1
  show ?case by simp
next
  case (2 key inner h s key_value rest order rest' "value" "next" popd popped h')
  then show ?case
    using heappop_measure[of rec_lt h popped h' key_rec_size] by (simp add: key_rec_size_def)
next
  case (3 key inner h s key_value rest order rest' "value" "next" v next' h1 repl replaced h2)
  then have ne: "h \<noteq> []" and h0: "h ! 0 = (key_value, order, value, v # next')"
    and h1: "h1 = h[0 := (key v, order, v, next')]"
    by (auto simp: getitem_def setitem_def split: if_splits)
  from 3 h1 heapreplace_measure[of rec_lt h1 "(key v, order, v, next')" replaced h2 key_rec_size]
  have "sum_list (map key_rec_size h2) = sum_list (map key_rec_size (h[0 := (key v, order, v, next')]))"
    by simp
  with sum_list_update_root[OF ne, of key_rec_size "(key v, order, v, next')"] h0
  show ?case by (simp add: key_rec_size_def)
qed

declare merge_key_loop.simps [simp del]

definition merge_key_tail ::
  "('k \<times> nat \<times> 'a \<times> 'a list) list \<Rightarrow> (error \<times> ('k \<times> nat \<times> 'a \<times> 'a list) list) + 'a list" where
  "merge_key_tail h =
     (if h \<noteq> [] then
        ebind (getitem h 0) (\<lambda>(key_value, order, value, next). Inr (value # next))
      else Inr [])"

definition merge_key ::
  "('a \<Rightarrow> 'k::linorder) \<Rightarrow> bool \<Rightarrow> 'a list list \<Rightarrow>
   (error \<times> ('k \<times> nat \<times> 'a \<times> 'a list) list) + 'a list" where
  "merge_key key reverse iterables =
     ebind (heapify rec_lt (merge_key_init key [] (enumerate 0 iterables))) (\<lambda>h.
     ebind (merge_key_loop key False h) (\<lambda>(out, h).
     ebind (merge_key_tail h) (\<lambda>rest. Inr (out @ rest))))"

section \<open>The merge as a selection\<close>

text \<open>
  What \<open>merge\<close> computes, stated without a heap. The iterators are numbered in the
  order of the arguments, and \<open>cs ! i\<close> is what iterator \<open>i\<close> has not produced yet.
  The next value is the head with the largest key; among the iterators whose heads
  have that key, it comes from the one listed last. It is removed from its
  iterator, and so on until every iterator is exhausted.
\<close>

definition active :: "'a list list \<Rightarrow> nat list" where
  "active cs = filter (\<lambda>i. cs ! i \<noteq> []) [0..<length cs]"

definition spec_pick :: "('a \<Rightarrow> 'k::linorder) \<Rightarrow> 'a list list \<Rightarrow> nat option" where
  "spec_pick key cs =
     (let act = active cs in
      if act = [] then None
      else let m = Max (set (map (\<lambda>i. key (hd (cs ! i))) act))
           in Some (last (filter (\<lambda>i. key (hd (cs ! i)) = m) act)))"

lemma active_iff: "i \<in> set (active cs) \<longleftrightarrow> i < length cs \<and> cs ! i \<noteq> []"
  by (auto simp: active_def)

lemma sorted_active: "sorted (active cs)"
  by (simp add: active_def sorted_wrt_filter)

lemma sorted_le_last:
  fixes xs :: "nat list"
  assumes "sorted xs" "x \<in> set xs"
  shows "x \<le> last xs"
proof -
  from assms(2) obtain n where n: "n < length xs" "xs ! n = x" by (auto simp: in_set_conv_nth)
  then have "xs \<noteq> []" by auto
  then have "last xs = xs ! (length xs - 1)" by (rule last_conv_nth)
  moreover have "xs ! n \<le> xs ! (length xs - 1)"
    by (rule sorted_nth_mono[OF assms(1)]) (use n in auto)
  ultimately show ?thesis using n by simp
qed

lemma spec_pick_None: "spec_pick key cs = None \<longleftrightarrow> (\<forall>i<length cs. cs ! i = [])"
proof -
  have "active cs = [] \<longleftrightarrow> (\<forall>i<length cs. cs ! i = [])"
    using active_iff[of _ cs] by (metis all_not_in_conv set_empty)
  then show ?thesis by (simp add: spec_pick_def Let_def)
qed

lemma spec_pick_Some:
  assumes "spec_pick key cs = Some i"
  shows "i < length cs" and "cs ! i \<noteq> []"
    and "j < length cs \<Longrightarrow> cs ! j \<noteq> [] \<Longrightarrow>
         key (hd (cs ! j)) < key (hd (cs ! i)) \<or> (key (hd (cs ! j)) = key (hd (cs ! i)) \<and> j \<le> i)"
proof -
  define act where "act = active cs"
  define m where "m = Max (set (map (\<lambda>i. key (hd (cs ! i))) act))"
  define F where "F = filter (\<lambda>i. key (hd (cs ! i)) = m) act"
  have ne: "act \<noteq> []" using assms by (auto simp: spec_pick_def act_def Let_def split: if_splits)
  have i: "i = last F" using assms ne by (simp add: spec_pick_def act_def m_def F_def Let_def)
  have fin: "finite (set (map (\<lambda>i. key (hd (cs ! i))) act))" "set (map (\<lambda>i. key (hd (cs ! i))) act) \<noteq> {}"
    using ne by auto
  from Max_in[OF fin] have "m \<in> set (map (\<lambda>i. key (hd (cs ! i))) act)" by (simp add: m_def)
  then have Fne: "F \<noteq> []" by (auto simp: F_def filter_empty_conv)
  then have iF: "i \<in> set F" using i by simp
  then have ia: "i \<in> set act" and im: "key (hd (cs ! i)) = m" by (auto simp: F_def)
  from ia show "i < length cs" and "cs ! i \<noteq> []" by (auto simp: act_def active_iff)
  assume j: "j < length cs" "cs ! j \<noteq> []"
  then have ja: "j \<in> set act" by (simp add: act_def active_iff)
  then have le: "key (hd (cs ! j)) \<le> m" using Max_ge[OF fin(1)] by (simp add: m_def)
  have sF: "sorted F" unfolding F_def act_def by (intro sorted_wrt_filter sorted_active)
  show "key (hd (cs ! j)) < key (hd (cs ! i)) \<or> (key (hd (cs ! j)) = key (hd (cs ! i)) \<and> j \<le> i)"
  proof (cases "key (hd (cs ! j)) = m")
    case True
    then have "j \<in> set F" using ja by (simp add: F_def)
    then have "j \<le> i" using sorted_le_last[OF sF] i by simp
    with True im show ?thesis by simp
  next
    case False
    with le im show ?thesis by simp
  qed
qed

lemma spec_pick_eqI:
  assumes "i < length cs" "cs ! i \<noteq> []"
    and "\<And>j. j < length cs \<Longrightarrow> cs ! j \<noteq> [] \<Longrightarrow>
         key (hd (cs ! j)) < key (hd (cs ! i)) \<or> (key (hd (cs ! j)) = key (hd (cs ! i)) \<and> j \<le> i)"
  shows "spec_pick key cs = Some i"
proof -
  have "spec_pick key cs \<noteq> None" using assms(1,2) by (auto simp: spec_pick_None)
  then obtain i' where i': "spec_pick key cs = Some i'" by auto
  from spec_pick_Some[OF i'] assms(1,2) assms(3)[of i']
  have "i = i'" by (metis not_less_iff_gr_or_eq le_antisym)
  with i' show ?thesis by simp
qed

lemma concat_update:
  assumes "i < length cs"
  shows "concat (cs[i := c]) = concat (take i cs) @ c @ concat (drop (Suc i) cs)"
    and "concat cs = concat (take i cs) @ cs ! i @ concat (drop (Suc i) cs)"
proof -
  show "concat (cs[i := c]) = concat (take i cs) @ c @ concat (drop (Suc i) cs)"
    using assms by (simp add: upd_conv_take_nth_drop)
  have "concat cs = concat (take i cs @ cs ! i # drop (Suc i) cs)"
    using assms by (simp add: id_take_nth_drop[symmetric])
  then show "concat cs = concat (take i cs) @ cs ! i @ concat (drop (Suc i) cs)" by simp
qed

lemma length_concat_tl:
  assumes "i < length cs" "cs ! i \<noteq> []"
  shows "length (concat (cs[i := tl (cs ! i)])) < length (concat cs)"
proof -
  have "length (tl (cs ! i)) < length (cs ! i)" using assms(2) by (cases "cs ! i") auto
  moreover have "length (concat (cs[i := tl (cs ! i)])) =
      length (concat (take i cs)) + length (tl (cs ! i)) + length (concat (drop (Suc i) cs))"
    by (simp add: concat_update(1)[OF assms(1)])
  moreover have "length (concat cs) =
      length (concat (take i cs)) + length (cs ! i) + length (concat (drop (Suc i) cs))"
    by (subst concat_update(2)[OF assms(1)]) simp
  ultimately show ?thesis by linarith
qed

lemma mset_concat_tl:
  assumes "i < length cs" "cs ! i \<noteq> []"
  shows "mset (concat cs) = add_mset (hd (cs ! i)) (mset (concat (cs[i := tl (cs ! i)])))"
proof -
  have "mset (cs ! i) = add_mset (hd (cs ! i)) (mset (tl (cs ! i)))"
    using assms(2) by (cases "cs ! i") auto
  moreover have "mset (concat (cs[i := tl (cs ! i)])) =
      mset (concat (take i cs)) + mset (tl (cs ! i)) + mset (concat (drop (Suc i) cs))"
    by (simp add: concat_update(1)[OF assms(1)])
  moreover have "mset (concat cs) =
      mset (concat (take i cs)) + mset (cs ! i) + mset (concat (drop (Suc i) cs))"
    by (subst concat_update(2)[OF assms(1)]) simp
  ultimately show ?thesis by simp
qed

function spec_merge :: "('a \<Rightarrow> 'k::linorder) \<Rightarrow> 'a list list \<Rightarrow> 'a list" where
  "spec_merge key cs =
     (case spec_pick key cs of
        None \<Rightarrow> []
      | Some i \<Rightarrow> hd (cs ! i) # spec_merge key (cs[i := tl (cs ! i)]))"
  by pat_completeness auto
termination
  by (relation "measure (\<lambda>(key, cs). length (concat cs))")
     (auto dest: spec_pick_Some(1,2) intro: length_concat_tl)

declare spec_merge.simps [simp del]

lemma spec_merge_mset: "mset (spec_merge key cs) = mset (concat cs)"
proof (induction key cs rule: spec_merge.induct)
  case (1 key cs)
  show ?case
  proof (cases "spec_pick key cs")
    case None
    then have "concat cs = []" by (auto simp: spec_pick_None in_set_conv_nth)
    with None show ?thesis by (subst spec_merge.simps) simp
  next
    case (Some i)
    from mset_concat_tl[OF spec_pick_Some(1,2)[OF Some]] "1.IH"[OF Some] Some
    show ?thesis by (subst spec_merge.simps) simp
  qed
qed

lemma spec_merge_sorted:
  assumes "\<forall>c\<in>set cs. sorted_wrt (\<lambda>a b. key b \<le> key a) c"
  shows "sorted_wrt (\<lambda>a b. key b \<le> key a) (spec_merge key cs)"
  using assms
proof (induction key cs rule: spec_merge.induct)
  case (1 key cs)
  show ?case
  proof (cases "spec_pick key cs")
    case None
    then show ?thesis by (subst spec_merge.simps) simp
  next
    case (Some i)
    note p = spec_pick_Some[OF Some]
    let ?cs' = "cs[i := tl (cs ! i)]"
    have srt: "sorted_wrt (\<lambda>a b. key b \<le> key a) c" if "c \<in> set cs" for c
      using "1.prems" that by blast
    have "sorted_wrt (\<lambda>a b. key b \<le> key a) (cs ! i)" using srt p(1) by simp
    then have tl_sorted: "sorted_wrt (\<lambda>a b. key b \<le> key a) (tl (cs ! i))"
      by (cases "cs ! i") auto
    have "\<forall>c\<in>set ?cs'. sorted_wrt (\<lambda>a b. key b \<le> key a) c"
      using srt tl_sorted by (metis insertE set_update_subset_insert subsetD)
    then have rest: "sorted_wrt (\<lambda>a b. key b \<le> key a) (spec_merge key ?cs')"
      by (rule "1.IH"[OF Some])
    have hd_max: "key y \<le> key (hd c)" if "c \<in> set cs" "y \<in> set c" for c y
      using srt[OF that(1)] that(2) by (cases c) auto
    have "key y \<le> key (hd (cs ! i))" if "y \<in> set (spec_merge key ?cs')" for y
    proof -
      have "y \<in># mset (concat ?cs')"
        using that mset_eq_setD[OF spec_merge_mset[of key ?cs']] by (simp only: set_mset_mset)
      then have "y \<in># mset (concat cs)" using mset_concat_tl[OF p(1,2)] by simp
      then obtain c where c: "c \<in> set cs" "y \<in> set c" by auto
      then obtain j where j: "j < length cs" "cs ! j = c" by (auto simp: in_set_conv_nth)
      with c have "cs ! j \<noteq> []" by auto
      from p(3)[OF j(1) this] hd_max[OF c] j show ?thesis by auto
    qed
    with rest Some show ?thesis by (subst spec_merge.simps) simp
  qed
qed

lemma spec_merge_empty:
  "\<forall>i<length cs. cs ! i = [] \<Longrightarrow> spec_merge key cs = []"
proof -
  assume "\<forall>i<length cs. cs ! i = []"
  then have "spec_pick key cs = None" by (simp add: spec_pick_None)
  then show ?thesis by (subst spec_merge.simps) simp
qed

lemma spec_merge_single:
  "i < length cs \<Longrightarrow> \<forall>j<length cs. j \<noteq> i \<longrightarrow> cs ! j = [] \<Longrightarrow> spec_merge key cs = cs ! i"
proof (induction "cs ! i" arbitrary: cs)
  case Nil
  then have "\<forall>j<length cs. cs ! j = []" by metis
  with Nil show ?case by (simp add: spec_merge_empty)
next
  case (Cons x xs)
  have ne: "cs ! i \<noteq> []" using Cons.hyps(2) by auto
  have "spec_pick key cs = Some i"
  proof (rule spec_pick_eqI[OF Cons.prems(1) ne])
    fix j assume "j < length cs" "cs ! j \<noteq> []"
    with Cons.prems(2) have "j = i" by blast
    then show "key (hd (cs ! j)) < key (hd (cs ! i)) \<or> (key (hd (cs ! j)) = key (hd (cs ! i)) \<and> j \<le> i)"
      by simp
  qed
  moreover have "spec_merge key (cs[i := tl (cs ! i)]) = cs[i := tl (cs ! i)] ! i"
    by (rule Cons.hyps(1)) (use Cons in \<open>auto simp: nth_list_update dest: sym\<close>)
  ultimately show ?case using Cons by (subst spec_merge.simps) (auto dest: sym)
qed

section \<open>The heap of merge holds the heads of the iterators\<close>

text \<open>
  \<open>entries pack n cs\<close> are the records of the iterators \<open>cs\<close>, numbered from \<open>n\<close>, that
  are not exhausted; \<open>pack\<close> gives the layout of a record: its first element and
  what follows the order index.
\<close>

definition entry :: "('a list \<Rightarrow> 'k \<times> 'c) \<Rightarrow> nat \<times> 'a list \<Rightarrow> 'k \<times> nat \<times> 'c" where
  "entry pack ic = (fst (pack (snd ic)), fst ic, snd (pack (snd ic)))"

definition entries :: "('a list \<Rightarrow> 'k \<times> 'c) \<Rightarrow> nat \<Rightarrow> 'a list list \<Rightarrow> ('k \<times> nat \<times> 'c) list" where
  "entries pack n cs = map (entry pack) (filter (\<lambda>ic. snd ic \<noteq> []) (enumerate n cs))"

definition pack_nokey :: "'a list \<Rightarrow> 'a \<times> 'a list" where
  "pack_nokey c = (hd c, tl c)"

definition pack_key :: "('a \<Rightarrow> 'k) \<Rightarrow> 'a list \<Rightarrow> 'k \<times> 'a \<times> 'a list" where
  "pack_key key c = (key (hd c), hd c, tl c)"

lemma swo_rec_lt: "strict_weak_order rec_lt"
  unfolding strict_weak_order_def rec_lt_def by (auto split: if_splits)

lemma rec_lt_entry:
  "rec_lt (entry pack (i, c)) (entry pack (j, d)) \<longleftrightarrow>
     fst (pack c) < fst (pack d) \<or> (fst (pack c) = fst (pack d) \<and> i < j)"
  by (auto simp: rec_lt_def entry_def)

lemma entries_Nil [simp]: "entries pack n [] = []"
  by (simp add: entries_def)

lemma entries_Cons:
  "entries pack n (c # cs) = (if c = [] then [] else [entry pack (n, c)]) @ entries pack (Suc n) cs"
  by (simp add: entries_def)

lemma entries_append:
  "entries pack n (xs @ ys) = entries pack n xs @ entries pack (n + length xs) ys"
  by (simp add: entries_def enumerate_append_eq)

lemma in_entries:
  "r \<in> set (entries pack 0 cs) \<longleftrightarrow> (\<exists>i<length cs. cs ! i \<noteq> [] \<and> r = entry pack (i, cs ! i))"
  by (auto simp: entries_def in_set_enumerate_eq image_iff)

lemma entries_update:
  assumes "i < length cs"
  shows "mset (entries pack 0 (cs[i := c'])) + (if cs ! i = [] then {#} else {#entry pack (i, cs ! i)#})
       = mset (entries pack 0 cs) + (if c' = [] then {#} else {#entry pack (i, c')#})"
proof -
  have l: "length (take i cs) = i" using assms by simp
  have 1: "entries pack 0 (cs[i := c']) =
      entries pack 0 (take i cs) @ (if c' = [] then [] else [entry pack (i, c')])
        @ entries pack (Suc i) (drop (Suc i) cs)"
    using assms l by (simp add: upd_conv_take_nth_drop entries_append entries_Cons)
  have "entries pack 0 cs = entries pack 0 (take i cs @ cs ! i # drop (Suc i) cs)"
    using assms by (simp add: id_take_nth_drop[symmetric])
  then have 2: "entries pack 0 cs =
      entries pack 0 (take i cs) @ (if cs ! i = [] then [] else [entry pack (i, cs ! i)])
        @ entries pack (Suc i) (drop (Suc i) cs)"
    using l by (simp only: entries_append entries_Cons) simp
  have "mset (entries pack 0 (cs[i := c'])) + (if cs ! i = [] then {#} else {#entry pack (i, cs ! i)#})
      = mset (entries pack 0 (take i cs)) + mset (entries pack (Suc i) (drop (Suc i) cs))
        + (if c' = [] then {#} else {#entry pack (i, c')#})
        + (if cs ! i = [] then {#} else {#entry pack (i, cs ! i)#})"
    by (simp add: 1)
  moreover have "mset (entries pack 0 cs) + (if c' = [] then {#} else {#entry pack (i, c')#})
      = mset (entries pack 0 (take i cs)) + mset (entries pack (Suc i) (drop (Suc i) cs))
        + (if c' = [] then {#} else {#entry pack (i, c')#})
        + (if cs ! i = [] then {#} else {#entry pack (i, cs ! i)#})"
    by (subst 2) simp
  ultimately show ?thesis by simp
qed

lemma heap_from_Suc0_update:
  "heap_from lt (Suc 0) heap \<Longrightarrow> heap_from lt (Suc 0) (heap[0 := item])"
  unfolding heap_from_def
proof (intro allI impI)
  fix j c
  assume h: "\<forall>j c. Suc 0 \<le> j \<and> child j c \<and> c < length heap \<longrightarrow> \<not> lt (heap ! j) (heap ! c)"
    and jc: "Suc 0 \<le> j \<and> child j c \<and> c < length (heap[0 := item])"
  then have "j \<noteq> 0" "c \<noteq> 0" using child_gt[of j c] by auto
  with h jc show "\<not> lt (heap[0 := item] ! j) (heap[0 := item] ! c)" by simp
qed

lemma heapreplace_heap_from:
  assumes swo: "strict_weak_order lt" and h: "heap_from lt (Suc 0) heap"
    and r: "heapreplace lt heap item = Inr (x, heap')"
  shows "is_heap lt heap'"
proof -
  have ne: "heap \<noteq> []" using r heapreplace_empty[of lt item] by auto
  then have sd: "siftdown lt (heap[0 := item]) 0 = Inr heap'"
    using r siftdown_ok[of 0 "heap[0 := item]" lt] by (auto simp: heapreplace_def)
  show ?thesis
    unfolding is_heap_iff
    by (rule siftdown_heap[OF swo _ _ sd]) (use ne h in \<open>auto intro: heap_from_Suc0_update\<close>)
qed

lemma root_is_pick:
  assumes h: "is_heap rec_lt h" and m: "mset h = mset (entries pack 0 cs)" and ne: "h \<noteq> []"
    and pk: "\<And>c. fst (pack c) = key (hd c)"
  shows "\<exists>i. spec_pick key cs = Some i \<and> i < length cs \<and> cs ! i \<noteq> [] \<and> h ! 0 = entry pack (i, cs ! i)"
proof -
  have s: "set h = set (entries pack 0 cs)" using m by (rule mset_eq_setD)
  have "h ! 0 \<in> set h" using ne by simp
  then obtain i where i: "i < length cs" "cs ! i \<noteq> []" "h ! 0 = entry pack (i, cs ! i)"
    unfolding s in_entries by blast
  have "spec_pick key cs = Some i"
  proof (rule spec_pick_eqI[OF i(1,2)])
    fix j assume j: "j < length cs" "cs ! j \<noteq> []"
    then have "entry pack (j, cs ! j) \<in> set h" unfolding s in_entries by blast
    then have "\<not> rec_lt (h ! 0) (entry pack (j, cs ! j))"
      by (rule heap_root_max[OF swo_rec_lt h])
    then show "key (hd (cs ! j)) < key (hd (cs ! i)) \<or> (key (hd (cs ! j)) = key (hd (cs ! i)) \<and> j \<le> i)"
      unfolding i(3) rec_lt_entry pk by auto
  qed
  with i show ?thesis by blast
qed

lemma entries_empty:
  assumes "mset h = mset (entries pack 0 cs)" "h = []"
  shows "\<forall>i<length cs. cs ! i = []"
proof -
  have "set (entries pack 0 cs) = {}" using assms by (metis mset_eq_setD set_empty)
  then have "entry pack (i, cs ! i) \<notin> set (entries pack 0 cs)" for i by simp
  then show ?thesis unfolding in_entries by blast
qed

lemma entries_single:
  assumes "mset h = mset (entries pack 0 cs)" "h = [r]"
  shows "\<exists>i<length cs. cs ! i \<noteq> [] \<and> r = entry pack (i, cs ! i) \<and> (\<forall>j<length cs. j \<noteq> i \<longrightarrow> cs ! j = [])"
proof -
  have s: "set (entries pack 0 cs) = {r}" using assms by (metis mset_eq_setD list.simps(15) set_empty empty_set)
  then obtain i where i: "i < length cs" "cs ! i \<noteq> []" "r = entry pack (i, cs ! i)"
    using in_entries[of r pack cs] by auto
  have "cs ! j = []" if "j < length cs" "j \<noteq> i" for j
  proof (rule ccontr)
    assume "cs ! j \<noteq> []"
    then have "entry pack (j, cs ! j) \<in> set (entries pack 0 cs)" using that in_entries by blast
    then have "entry pack (j, cs ! j) = entry pack (i, cs ! i)" using s i(3) by simp
    then show False using that(2) by (simp add: entry_def)
  qed
  with i show ?thesis by blast
qed

section \<open>merge without a key refines the selection\<close>

text \<open>Lines 189-206 from a given heap: the loops, then the last iterator.\<close>

definition merge_rest ::
  "bool \<Rightarrow> ('a::linorder \<times> nat \<times> 'a list) list \<Rightarrow> (error \<times> ('a \<times> nat \<times> 'a list) list) + 'a list" where
  "merge_rest inner h =
     ebind (merge_loop inner h) (\<lambda>(out, h).
     ebind (merge_tail h) (\<lambda>rest. Inr (out @ rest)))"

lemma merge_loop_stop: "\<not> inner \<Longrightarrow> length h \<le> 1 \<Longrightarrow> merge_loop inner h = Inr ([], h)"
  by (subst merge_loop.simps) simp

lemma merge_loop_pop:
  assumes "inner \<or> length h > 1" "h \<noteq> []" "h ! 0 = (value, order, [])"
  shows "merge_loop inner h =
     ebind (heappop rec_lt h) (\<lambda>(popped, h).
     ebind (merge_loop False h) (\<lambda>(out, h). Inr (value # out, h)))"
  using assms by (subst merge_loop.simps) auto

lemma merge_loop_replace:
  assumes "inner \<or> length h > 1" "h \<noteq> []" "h ! 0 = (value, order, v # next')"
  shows "merge_loop inner h =
     ebind (heapreplace rec_lt (h[0 := (v, order, next')]) (v, order, next')) (\<lambda>(replaced, h).
     ebind (merge_loop True h) (\<lambda>(out, h). Inr (value # out, h)))"
  using assms by (subst merge_loop.simps) auto

lemma merge_rest_step:
  assumes "merge_loop inner h = ebind m (\<lambda>(z, h'). ebind (merge_loop inner' h') (\<lambda>(out, h). Inr (x # out, h)))"
    and "m = Inr (z, h')" and "merge_rest inner' h' = Inr out"
  shows "merge_rest inner h = Inr (x # out)"
proof -
  from assms(3) obtain o1 h1 where 1: "merge_loop inner' h' = Inr (o1, h1)"
    by (cases "merge_loop inner' h'") (auto simp: merge_rest_def)
  with assms(3) obtain r where 2: "merge_tail h1 = Inr r" "out = o1 @ r"
    by (cases "merge_tail h1") (auto simp: merge_rest_def)
  from assms(1,2) 1 have "merge_loop inner h = Inr (x # o1, h1)" by simp
  with 2 show ?thesis by (simp add: merge_rest_def)
qed

lemma merge_rest_refines:
  assumes "is_heap rec_lt h" "mset h = mset (entries pack_nokey 0 cs)" "inner \<longrightarrow> length h > 1"
  shows "merge_rest inner h = Inr (spec_merge (\<lambda>x. x) cs)"
  using assms
proof (induction "length (concat cs)" arbitrary: cs h inner rule: less_induct)
  case less
  note heap = less.prems(1) and m = less.prems(2)
  have pk: "fst (pack_nokey c) = (\<lambda>x. x) (hd c)" for c :: "'a list" by (simp add: pack_nokey_def)
  show ?case
  proof (cases "inner \<or> length h > 1")
    case False
    then have stop: "merge_loop inner h = Inr ([], h)" by (simp add: merge_loop_stop)
    show ?thesis
    proof (cases h)
      case Nil
      from entries_empty[OF m Nil] have "spec_merge (\<lambda>x. x) cs = []" by (rule spec_merge_empty)
      with stop Nil show ?thesis by (simp add: merge_rest_def merge_tail_def)
    next
      case (Cons r t)
      with False have h: "h = [r]" by simp
      from entries_single[OF m h] obtain i where i: "i < length cs" "cs ! i \<noteq> []"
        "r = entry pack_nokey (i, cs ! i)" "\<forall>j<length cs. j \<noteq> i \<longrightarrow> cs ! j = []"
        by blast
      have "spec_merge (\<lambda>x. x) cs = cs ! i" by (rule spec_merge_single[OF i(1,4)])
      with stop h i(2,3) show ?thesis
        by (simp add: merge_rest_def merge_tail_def entry_def pack_nokey_def)
    qed
  next
    case True
    with less.prems(3) have len: "length h > 1" by blast
    then have ne: "h \<noteq> []" by auto
    from root_is_pick[OF heap m ne pk]
    obtain i where i: "spec_pick (\<lambda>x. x) cs = Some i" "i < length cs" "cs ! i \<noteq> []"
      "h ! 0 = entry pack_nokey (i, cs ! i)"
      by blast
    let ?cs' = "cs[i := tl (cs ! i)]"
    have spec: "spec_merge (\<lambda>x. x) cs = hd (cs ! i) # spec_merge (\<lambda>x. x) ?cs'"
      using i(1) by (subst spec_merge.simps) simp
    have less': "length (concat ?cs') < length (concat cs)" by (rule length_concat_tl[OF i(2,3)])
    have h0: "h ! 0 = (hd (cs ! i), i, tl (cs ! i))" using i(4) by (simp add: entry_def pack_nokey_def)
    have upd: "mset (entries pack_nokey 0 ?cs') + {#h ! 0#}
       = mset h + (if tl (cs ! i) = [] then {#} else {#entry pack_nokey (i, tl (cs ! i))#})"
      using entries_update[OF i(2), of pack_nokey "tl (cs ! i)"] i(3,4) m by simp
    show ?thesis
    proof (cases "tl (cs ! i)")
      case Nil
      from heappop_ok[OF ne, of rec_lt]
      obtain h' where h': "heappop rec_lt h = Inr (h ! 0, h')" "mset h = add_mset (h ! 0) (mset h')"
        by auto
      have heap': "is_heap rec_lt h'" by (rule heappop_heap[OF swo_rec_lt heap h'(1)])
      have m': "mset h' = mset (entries pack_nokey 0 ?cs')" using upd h'(2) Nil by simp
      have "merge_rest False h' = Inr (spec_merge (\<lambda>x. x) ?cs')"
        by (rule less.hyps[OF less' heap' m']) simp
      from merge_rest_step[OF merge_loop_pop[OF True ne h0[unfolded Nil]] h'(1) this] spec
      show ?thesis by simp
    next
      case (Cons v next')
      let ?s = "(v, i, next')"
      let ?h1 = "h[0 := ?s]"
      have ne1: "?h1 \<noteq> []" using ne by simp
      from heapreplace_ok[OF ne1, of rec_lt ?s]
      obtain h2 where h2: "heapreplace rec_lt ?h1 ?s = Inr (?h1 ! 0, h2)" "length h2 = length ?h1"
        "mset h2 = mset (?h1[0 := ?s])"
        by auto
      have "heap_from rec_lt (Suc 0) ?h1"
        using heap unfolding is_heap_iff by (rule heap_from_update_root)
      then have heap2: "is_heap rec_lt h2" by (rule heapreplace_heap_from[OF swo_rec_lt _ h2(1)])
      have s: "entry pack_nokey (i, tl (cs ! i)) = ?s" using Cons by (simp add: entry_def pack_nokey_def)
      have a: "mset h2 + {#h ! 0#} = mset h + {#?s#}"
        using h2(3) ne by (simp add: mset_update)
      have b: "mset (entries pack_nokey 0 ?cs') + {#h ! 0#} = mset h + {#?s#}"
        using upd s Cons by simp
      have "mset h2 + {#h ! 0#} = mset (entries pack_nokey 0 ?cs') + {#h ! 0#}"
        by (simp only: a b)
      then have m2: "mset h2 = mset (entries pack_nokey 0 ?cs')" by simp
      have "merge_rest True h2 = Inr (spec_merge (\<lambda>x. x) ?cs')"
        by (rule less.hyps[OF less' heap2 m2]) (use h2(2) len in simp)
      from merge_rest_step[OF merge_loop_replace[OF True ne h0[unfolded Cons]] h2(1) this] spec
      show ?thesis by simp
    qed
  qed
qed

lemma merge_init_ok:
  "is_heap rec_lt h \<Longrightarrow>
   \<exists>h'. merge_init h (enumerate n its) = Inr h' \<and> is_heap rec_lt h'
      \<and> mset h' = mset h + mset (entries pack_nokey n its)"
proof (induction its arbitrary: h n)
  case Nil
  then show ?case by simp
next
  case (Cons it its)
  define h0 where "h0 = (case it of [] \<Rightarrow> h | x # next \<Rightarrow> h @ [(x, n, next)])"
  from heapify_ok[of rec_lt h0] obtain h1 where h1: "heapify rec_lt h0 = Inr h1" "mset h1 = mset h0"
    by auto
  have "is_heap rec_lt h1" by (rule heapify_heap[OF swo_rec_lt h1(1)])
  from Cons.IH[OF this, of "Suc n"]
  obtain h' where h': "merge_init h1 (enumerate (Suc n) its) = Inr h'" "is_heap rec_lt h'"
    "mset h' = mset h1 + mset (entries pack_nokey (Suc n) its)"
    by auto
  have "mset h0 = mset h + mset (if it = [] then [] else [entry pack_nokey (n, it)])"
    by (cases it) (simp_all add: h0_def entry_def pack_nokey_def)
  with h' h1 show ?case by (simp add: h0_def[symmetric] entries_Cons)
qed

lemma merge_nokey_refines: "merge_nokey reverse iterables = Inr (spec_merge (\<lambda>x. x) iterables)"
proof -
  have e: "is_heap rec_lt ([] :: ('a \<times> nat \<times> 'a list) list)" by (simp add: is_heap_def)
  from merge_init_ok[OF e, of 0 iterables]
  obtain h where h: "merge_init [] (enumerate 0 iterables) = Inr h" "is_heap rec_lt h"
    "mset h = mset (entries pack_nokey 0 iterables)"
    by auto
  from merge_rest_refines[OF h(2,3), of False] h(1) show ?thesis
    by (simp add: merge_nokey_def merge_rest_def)
qed

section \<open>merge with a key refines the selection\<close>

text \<open>Lines 216-234 from a given heap.\<close>

definition merge_key_rest ::
  "('a \<Rightarrow> 'k::linorder) \<Rightarrow> bool \<Rightarrow> ('k \<times> nat \<times> 'a \<times> 'a list) list \<Rightarrow>
   (error \<times> ('k \<times> nat \<times> 'a \<times> 'a list) list) + 'a list" where
  "merge_key_rest key inner h =
     ebind (merge_key_loop key inner h) (\<lambda>(out, h).
     ebind (merge_key_tail h) (\<lambda>rest. Inr (out @ rest)))"

lemma merge_key_loop_stop:
  "\<not> inner \<Longrightarrow> length h \<le> 1 \<Longrightarrow> merge_key_loop key inner h = Inr ([], h)"
  by (subst merge_key_loop.simps) simp

lemma merge_key_loop_pop:
  assumes "inner \<or> length h > 1" "h \<noteq> []" "h ! 0 = (key_value, order, value, [])"
  shows "merge_key_loop key inner h =
     ebind (heappop rec_lt h) (\<lambda>(popped, h).
     ebind (merge_key_loop key False h) (\<lambda>(out, h). Inr (value # out, h)))"
  using assms by (subst merge_key_loop.simps) auto

lemma merge_key_loop_replace:
  assumes "inner \<or> length h > 1" "h \<noteq> []" "h ! 0 = (key_value, order, value, v # next')"
  shows "merge_key_loop key inner h =
     ebind (heapreplace rec_lt (h[0 := (key v, order, v, next')]) (key v, order, v, next'))
       (\<lambda>(replaced, h).
     ebind (merge_key_loop key True h) (\<lambda>(out, h). Inr (value # out, h)))"
  using assms by (subst merge_key_loop.simps) auto

lemma merge_key_rest_step:
  assumes "merge_key_loop key inner h =
      ebind m (\<lambda>(z, h'). ebind (merge_key_loop key inner' h') (\<lambda>(out, h). Inr (x # out, h)))"
    and "m = Inr (z, h')" and "merge_key_rest key inner' h' = Inr out"
  shows "merge_key_rest key inner h = Inr (x # out)"
proof -
  from assms(3) obtain o1 h1 where 1: "merge_key_loop key inner' h' = Inr (o1, h1)"
    by (cases "merge_key_loop key inner' h'") (auto simp: merge_key_rest_def)
  with assms(3) obtain r where 2: "merge_key_tail h1 = Inr r" "out = o1 @ r"
    by (cases "merge_key_tail h1") (auto simp: merge_key_rest_def)
  from assms(1,2) 1 have "merge_key_loop key inner h = Inr (x # o1, h1)" by simp
  with 2 show ?thesis by (simp add: merge_key_rest_def)
qed

lemma merge_key_rest_refines:
  assumes "is_heap rec_lt h" "mset h = mset (entries (pack_key key) 0 cs)" "inner \<longrightarrow> length h > 1"
  shows "merge_key_rest key inner h = Inr (spec_merge key cs)"
  using assms
proof (induction "length (concat cs)" arbitrary: cs h inner rule: less_induct)
  case less
  note heap = less.prems(1) and m = less.prems(2)
  have pk: "fst (pack_key key c) = key (hd c)" for c by (simp add: pack_key_def)
  show ?case
  proof (cases "inner \<or> length h > 1")
    case False
    then have stop: "merge_key_loop key inner h = Inr ([], h)" by (simp add: merge_key_loop_stop)
    show ?thesis
    proof (cases h)
      case Nil
      from entries_empty[OF m Nil] have "spec_merge key cs = []" by (rule spec_merge_empty)
      with stop Nil show ?thesis by (simp add: merge_key_rest_def merge_key_tail_def)
    next
      case (Cons r t)
      with False have h: "h = [r]" by simp
      from entries_single[OF m h] obtain i where i: "i < length cs" "cs ! i \<noteq> []"
        "r = entry (pack_key key) (i, cs ! i)" "\<forall>j<length cs. j \<noteq> i \<longrightarrow> cs ! j = []"
        by blast
      have "spec_merge key cs = cs ! i" by (rule spec_merge_single[OF i(1,4)])
      with stop h i(2,3) show ?thesis
        by (simp add: merge_key_rest_def merge_key_tail_def entry_def pack_key_def)
    qed
  next
    case True
    with less.prems(3) have len: "length h > 1" by blast
    then have ne: "h \<noteq> []" by auto
    from root_is_pick[OF heap m ne pk]
    obtain i where i: "spec_pick key cs = Some i" "i < length cs" "cs ! i \<noteq> []"
      "h ! 0 = entry (pack_key key) (i, cs ! i)"
      by blast
    let ?cs' = "cs[i := tl (cs ! i)]"
    have spec: "spec_merge key cs = hd (cs ! i) # spec_merge key ?cs'"
      using i(1) by (subst spec_merge.simps) simp
    have less': "length (concat ?cs') < length (concat cs)" by (rule length_concat_tl[OF i(2,3)])
    have h0: "h ! 0 = (key (hd (cs ! i)), i, hd (cs ! i), tl (cs ! i))"
      using i(4) by (simp add: entry_def pack_key_def)
    have upd: "mset (entries (pack_key key) 0 ?cs') + {#h ! 0#}
       = mset h + (if tl (cs ! i) = [] then {#} else {#entry (pack_key key) (i, tl (cs ! i))#})"
      using entries_update[OF i(2), of "pack_key key" "tl (cs ! i)"] i(3,4) m by simp
    show ?thesis
    proof (cases "tl (cs ! i)")
      case Nil
      from heappop_ok[OF ne, of rec_lt]
      obtain h' where h': "heappop rec_lt h = Inr (h ! 0, h')" "mset h = add_mset (h ! 0) (mset h')"
        by auto
      have heap': "is_heap rec_lt h'" by (rule heappop_heap[OF swo_rec_lt heap h'(1)])
      have m': "mset h' = mset (entries (pack_key key) 0 ?cs')" using upd h'(2) Nil by simp
      have "merge_key_rest key False h' = Inr (spec_merge key ?cs')"
        by (rule less.hyps[OF less' heap' m']) simp
      from merge_key_rest_step[OF merge_key_loop_pop[OF True ne h0[unfolded Nil]] h'(1) this] spec
      show ?thesis by simp
    next
      case (Cons v next')
      let ?s = "(key v, i, v, next')"
      let ?h1 = "h[0 := ?s]"
      have ne1: "?h1 \<noteq> []" using ne by simp
      from heapreplace_ok[OF ne1, of rec_lt ?s]
      obtain h2 where h2: "heapreplace rec_lt ?h1 ?s = Inr (?h1 ! 0, h2)" "length h2 = length ?h1"
        "mset h2 = mset (?h1[0 := ?s])"
        by auto
      have "heap_from rec_lt (Suc 0) ?h1"
        using heap unfolding is_heap_iff by (rule heap_from_update_root)
      then have heap2: "is_heap rec_lt h2" by (rule heapreplace_heap_from[OF swo_rec_lt _ h2(1)])
      have s: "entry (pack_key key) (i, tl (cs ! i)) = ?s"
        using Cons by (simp add: entry_def pack_key_def)
      have a: "mset h2 + {#h ! 0#} = mset h + {#?s#}"
        using h2(3) ne by (simp add: mset_update)
      have b: "mset (entries (pack_key key) 0 ?cs') + {#h ! 0#} = mset h + {#?s#}"
        using upd s Cons by simp
      have "mset h2 + {#h ! 0#} = mset (entries (pack_key key) 0 ?cs') + {#h ! 0#}"
        by (simp only: a b)
      then have m2: "mset h2 = mset (entries (pack_key key) 0 ?cs')" by simp
      have "merge_key_rest key True h2 = Inr (spec_merge key ?cs')"
        by (rule less.hyps[OF less' heap2 m2]) (use h2(2) len in simp)
      from merge_key_rest_step[OF merge_key_loop_replace[OF True ne h0[unfolded Cons]] h2(1) this] spec
      show ?thesis by simp
    qed
  qed
qed

lemma merge_key_init_eq:
  "merge_key_init key h (enumerate n its) = h @ entries (pack_key key) n its"
proof (induction its arbitrary: h n)
  case Nil
  then show ?case by simp
next
  case (Cons it its)
  show ?case by (cases it) (simp_all add: Cons.IH entries_Cons entry_def pack_key_def)
qed

lemma merge_key_refines: "merge_key key reverse iterables = Inr (spec_merge key iterables)"
proof -
  let ?h0 = "merge_key_init key [] (enumerate 0 iterables)"
  from heapify_ok[of rec_lt ?h0] obtain h where h: "heapify rec_lt ?h0 = Inr h" "mset h = mset ?h0"
    by auto
  have heap: "is_heap rec_lt h" by (rule heapify_heap[OF swo_rec_lt h(1)])
  have m: "mset h = mset (entries (pack_key key) 0 iterables)"
    using h(2) by (simp add: merge_key_init_eq)
  from merge_key_rest_refines[OF heap m, of False] h(1) show ?thesis
    by (simp add: merge_key_def merge_key_rest_def)
qed

section \<open>Running merge on given inputs\<close>

lemma merge_loop_Nil: "merge_loop False [] = Inr ([], [])"
  by (subst merge_loop.simps) simp

lemma merge_loop_single: "merge_loop False [r] = Inr ([], [r])"
  by (subst merge_loop.simps) simp

lemma merge_loop_Cons_Nil:
  "inner \<or> t \<noteq> [] \<Longrightarrow>
   merge_loop inner ((value, order, []) # t) =
     ebind (heappop rec_lt ((value, order, []) # t)) (\<lambda>(popped, h).
     ebind (merge_loop False h) (\<lambda>(out, h). Inr (value # out, h)))"
  by (rule merge_loop_pop) (auto simp: Suc_lessI)

lemma merge_loop_Cons_Cons:
  "inner \<or> t \<noteq> [] \<Longrightarrow>
   merge_loop inner ((value, order, v # next') # t) =
     ebind (heapreplace rec_lt ((v, order, next') # t) (v, order, next')) (\<lambda>(replaced, h).
     ebind (merge_loop True h) (\<lambda>(out, h). Inr (value # out, h)))"
  using merge_loop_replace[of inner "(value, order, v # next') # t" "value" order v next']
  by (auto simp: Suc_lessI)

lemma merge_key_loop_Nil: "merge_key_loop key False [] = Inr ([], [])"
  by (subst merge_key_loop.simps) simp

lemma merge_key_loop_single: "merge_key_loop key False [r] = Inr ([], [r])"
  by (subst merge_key_loop.simps) simp

lemma merge_key_loop_Cons_Nil:
  "inner \<or> t \<noteq> [] \<Longrightarrow>
   merge_key_loop key inner ((key_value, order, value, []) # t) =
     ebind (heappop rec_lt ((key_value, order, value, []) # t)) (\<lambda>(popped, h).
     ebind (merge_key_loop key False h) (\<lambda>(out, h). Inr (value # out, h)))"
  by (rule merge_key_loop_pop) (auto simp: Suc_lessI)

lemma merge_key_loop_Cons_Cons:
  "inner \<or> t \<noteq> [] \<Longrightarrow>
   merge_key_loop key inner ((key_value, order, value, v # next') # t) =
     ebind (heapreplace rec_lt ((key v, order, v, next') # t) (key v, order, v, next'))
       (\<lambda>(replaced, h).
     ebind (merge_key_loop key True h) (\<lambda>(out, h). Inr (value # out, h)))"
  using merge_key_loop_replace[of inner "(key_value, order, value, v # next') # t" key_value order "value" v next' key]
  by (auto simp: Suc_lessI)

lemmas run_heap = heapify_def heappop_def heapreplace_def list_pop_def siftdown_def
  siftdown_loop_unfold Let_def rec_lt_def enumerate_eq_zip upt_rec

lemmas run_merge = merge_nokey_def merge_tail_def merge_loop_Nil merge_loop_single
  merge_loop_Cons_Nil merge_loop_Cons_Cons

lemmas run_merge_key = merge_key_def merge_key_tail_def merge_key_loop_Nil merge_key_loop_single
  merge_key_loop_Cons_Nil merge_key_loop_Cons_Cons

lemma spec_merge_tied_heads:
  assumes "key x = key y"
  shows "\<exists>out. spec_merge key [x # xs, y # ys] = y # out"
proof -
  have "spec_pick key [x # xs, y # ys] = Some 1"
  proof (rule spec_pick_eqI)
    fix j assume "j < length [x # xs, y # ys]" "[x # xs, y # ys] ! j \<noteq> []"
    then have "j = 0 \<or> j = 1" by auto
    then show "key (hd ([x # xs, y # ys] ! j)) < key (hd ([x # xs, y # ys] ! 1))
        \<or> (key (hd ([x # xs, y # ys] ! j)) = key (hd ([x # xs, y # ys] ! 1)) \<and> j \<le> 1)"
      using assms by auto
  qed simp_all
  then show ?thesis by (subst spec_merge.simps) simp
qed




section \<open>The claims\<close>

text \<open>
  C1. For every list of mutually comparable elements (duplicates, negative numbers
  and floating-point numbers included), \<open>heapify\<close> returns, and the list it leaves is
  a permutation of the original that satisfies the max-heap invariant:
  \<open>a[i] \<ge> a[2i+1]\<close> and \<open>a[i] \<ge> a[2i+2]\<close> wherever those indices are in range.
  The lists of the witness are those of the repository's tests; the floating-point
  literals are read as the real numbers they denote.
\<close>

theorem heapify_max_heap:
  assumes "strict_weak_order lt"
  shows "\<exists>heap'. heapify lt array = Inr heap' \<and> mset heap' = mset array \<and> is_heap lt heap'"
  using heapify_ok[of lt array] heapify_heap[OF assms, of array] by auto

theorem heapify_max_heap_witness:
  "strict_weak_order ((<) :: int \<Rightarrow> int \<Rightarrow> bool)
   \<and> heapify (<) [-7, 10, 12, -33, -4, 2, 5, 3, -99 :: int] = Inr [12, 10, 5, 3, -4, 2, -7, -33, -99]
   \<and> mset [12, 10, 5, 3, -4, 2, -7, -33, -99 :: int] = mset [-7, 10, 12, -33, -4, 2, 5, 3, -99]
   \<and> is_heap (<) [12, 10, 5, 3, -4, 2, -7, -33, -99 :: int]
   \<and> heapify (<) [5.5, 3, 7.4, 7.7, 1, 3.33, 10.15 :: real] = Inr [10.15, 7.7, 7.4, 3, 1, 3.33, 5.5]
   \<and> is_heap (<) [10.15, 7.7, 7.4, 3, 1, 3.33, 5.5 :: real]"
proof -
  have swo: "strict_weak_order ((<) :: int \<Rightarrow> int \<Rightarrow> bool)" by (rule swo_linorder)
  have swo': "strict_weak_order ((<) :: real \<Rightarrow> real \<Rightarrow> bool)" by (rule swo_linorder)
  have ev: "heapify (<) [-7, 10, 12, -33, -4, 2, 5, 3, -99 :: int] = Inr [12, 10, 5, 3, -4, 2, -7, -33, -99]"
    by (simp add: heapify_def siftdown_def siftdown_loop_unfold Let_def upt_rec)
  have ev': "heapify (<) [5.5, 3, 7.4, 7.7, 1, 3.33, 10.15 :: real] = Inr [10.15, 7.7, 7.4, 3, 1, 3.33, 5.5]"
    by (simp add: heapify_def siftdown_def siftdown_loop_unfold Let_def upt_rec)
  from heapify_max_heap[OF swo, of "[-7, 10, 12, -33, -4, 2, 5, 3, -99]"]
    heapify_max_heap[OF swo', of "[5.5, 3, 7.4, 7.7, 1, 3.33, 10.15]"] ev ev' swo
  show ?thesis by simp
qed

text \<open>
  C2. For every finite collection of inputs, each sorted in descending order, \<open>merge\<close>
  without a key function returns; what it yields is exactly the elements of all the
  inputs, in descending order, that is the descending sort of their concatenation.
  Merging \<open>[6,5,3,2,2,1]\<close>, \<open>[9,7,4,3,1]\<close> and \<open>[10]\<close> yields
  \<open>[10,9,7,6,5,4,3,3,2,2,1,1]\<close>, and merging empty inputs only yields nothing.
\<close>

theorem merge_nokey_descending:
  "((\<forall>it\<in>set iterables. sorted_wrt (\<lambda>a b. b \<le> a) it) \<longrightarrow>
      (\<exists>out. merge_nokey reverse iterables = Inr out
         \<and> mset out = mset (concat iterables)
         \<and> sorted_wrt (\<lambda>a b. b \<le> a) out
         \<and> out = rev (sort (concat iterables))))
   \<and> merge_nokey reverse [[6, 5, 3, 2, 2, 1], [9, 7, 4, 3, 1], [10 :: int]]
        = Inr [10, 9, 7, 6, 5, 4, 3, 3, 2, 2, 1, 1]
   \<and> ((\<forall>it\<in>set iterables. it = []) \<longrightarrow> merge_nokey reverse iterables = Inr [])"
proof (intro conjI impI)
  assume s: "\<forall>it\<in>set iterables. sorted_wrt (\<lambda>a b. b \<le> a) it"
  let ?out = "spec_merge (\<lambda>x. x) iterables"
  have m: "mset ?out = mset (concat iterables)" by (rule spec_merge_mset)
  have srt: "sorted_wrt (\<lambda>a b. b \<le> a) ?out" using s by (rule spec_merge_sorted)
  then have "sorted_wrt (\<lambda>a b. \<not> a < b) ?out" by (simp add: not_less)
  then have "?out = rev (sort (concat iterables))" using m by (rule sorted_desc_unique)
  with m srt show "\<exists>out. merge_nokey reverse iterables = Inr out
         \<and> mset out = mset (concat iterables)
         \<and> sorted_wrt (\<lambda>a b. b \<le> a) out
         \<and> out = rev (sort (concat iterables))"
    by (simp add: merge_nokey_refines)
next
  show "merge_nokey reverse [[6, 5, 3, 2, 2, 1], [9, 7, 4, 3, 1], [10 :: int]]
        = Inr [10, 9, 7, 6, 5, 4, 3, 3, 2, 2, 1, 1]"
    by (simp add: run_heap run_merge)
next
  assume "\<forall>it\<in>set iterables. it = []"
  then have "spec_merge (\<lambda>x. x) iterables = []" by (intro spec_merge_empty) simp
  then show "merge_nokey reverse iterables = Inr []" by (simp add: merge_nokey_refines)
qed

theorem merge_nokey_descending_witness:
  "list_all (sorted_wrt (\<lambda>a b. b \<le> a)) [[6, 5, 3, 2, 2, 1], [9, 7, 4, 3, 1], [10 :: int]]
   \<and> merge_nokey False [[6, 5, 3, 2, 2, 1], [9, 7, 4, 3, 1], [10 :: int]]
        = Inr (rev (sort (concat [[6, 5, 3, 2, 2, 1], [9, 7, 4, 3, 1], [10]])))
   \<and> rev (sort (concat [[6, 5, 3, 2, 2, 1], [9, 7, 4, 3, 1], [10 :: int]]))
        = [10, 9, 7, 6, 5, 4, 3, 3, 2, 2, 1, 1]
   \<and> merge_nokey False [[], [], [] :: int list] = Inr []"
proof -
  have s: "\<forall>it\<in>set [[6, 5, 3, 2, 2, 1], [9, 7, 4, 3, 1], [10 :: int]]. sorted_wrt (\<lambda>a b. b \<le> a) it"
    by simp
  have e: "\<forall>it\<in>set [[], [], [] :: int list]. it = []" by simp
  from merge_nokey_descending[of "[[6, 5, 3, 2, 2, 1], [9, 7, 4, 3, 1], [10 :: int]]" False] s
    merge_nokey_descending[of "[[], [], [] :: int list]" False] e
  show ?thesis by simp
qed

text \<open>
  C3. For every non-empty list that satisfies the max-heap invariant, \<open>heappop\<close>
  returns the element at index 0, which is a maximum of the list; the list it leaves
  is one element shorter, holds exactly the remaining elements and still satisfies
  the invariant; a list of one element is left empty.
\<close>

theorem heappop_max:
  assumes "strict_weak_order lt" and "is_heap lt heap" and "heap \<noteq> []"
  shows "\<exists>heap'. heappop lt heap = Inr (heap ! 0, heap')
           \<and> (\<forall>x\<in>set heap. \<not> lt (heap ! 0) x)
           \<and> Suc (length heap') = length heap
           \<and> mset heap' = mset heap - {#heap ! 0#}
           \<and> is_heap lt heap'
           \<and> (length heap = 1 \<longrightarrow> heap' = [])"
proof -
  from heappop_ok[OF assms(3), of lt]
  obtain heap' where h: "heappop lt heap = Inr (heap ! 0, heap')" "Suc (length heap') = length heap"
    "mset heap = add_mset (heap ! 0) (mset heap')"
    by auto
  have "is_heap lt heap'" by (rule heappop_heap[OF assms(1,2) h(1)])
  moreover have "\<forall>x\<in>set heap. \<not> lt (heap ! 0) x"
    using heap_root_max[OF assms(1,2)] by blast
  moreover have "length heap = 1 \<longrightarrow> heap' = []" using h(2) by auto
  ultimately show ?thesis using h by auto
qed

theorem heappop_max_witness:
  "strict_weak_order ((<) :: int \<Rightarrow> int \<Rightarrow> bool)
   \<and> is_heap (<) [9, 7, 4, 6, 6, 2, 2, 1, 2, 1 :: int]
   \<and> [9, 7, 4, 6, 6, 2, 2, 1, 2, 1 :: int] \<noteq> []
   \<and> heappop (<) [9, 7, 4, 6, 6, 2, 2, 1, 2, 1 :: int] = Inr (9, [7, 6, 4, 2, 6, 2, 2, 1, 1])
   \<and> is_heap (<) [7, 6, 4, 2, 6, 2, 2, 1, 1 :: int]"
proof -
  have swo: "strict_weak_order ((<) :: int \<Rightarrow> int \<Rightarrow> bool)" by (rule swo_linorder)
  have h: "is_heap (<) [9, 7, 4, 6, 6, 2, 2, 1, 2, 1 :: int]"
    by (simp add: is_heap_def atLeastLessThan_upt upt_rec)
  have ne: "[9, 7, 4, 6, 6, 2, 2, 1, 2, 1 :: int] \<noteq> []" by simp
  have ev: "heappop (<) [9, 7, 4, 6, 6, 2, 2, 1, 2, 1 :: int] = Inr (9, [7, 6, 4, 2, 6, 2, 2, 1, 1])"
    by (simp add: heappop_def list_pop_def siftdown_def siftdown_loop_unfold Let_def)
  from heappop_max[OF swo h ne] ev swo h show ?thesis by simp
qed

text \<open>
  C4. After \<open>heapify\<close>, repeated \<open>heappop\<close> until the list is empty returns the elements
  in non-increasing order: the popped sequence is a permutation of the original list
  in which no element is less than a later one. Over a linear order it is the
  descending sort of the original list.
\<close>

theorem heapify_heappop_descending:
  fixes ys :: "'b::linorder list"
  assumes "strict_weak_order lt"
  shows "(\<exists>heap' out. heapify lt xs = Inr heap' \<and> heappop_all lt heap' = Inr out
            \<and> sorted_wrt (\<lambda>a b. \<not> lt a b) out \<and> mset out = mset xs)
       \<and> (\<exists>heap'. heapify (<) ys = Inr heap' \<and> heappop_all (<) heap' = Inr (rev (sort ys)))"
proof -
  have gen: "\<exists>heap' out. heapify lt xs = Inr heap' \<and> heappop_all lt heap' = Inr out
            \<and> sorted_wrt (\<lambda>a b. \<not> lt a b) out \<and> mset out = mset xs"
    if swo: "strict_weak_order lt" for lt :: "'c \<Rightarrow> 'c \<Rightarrow> bool" and xs
  proof -
    from heapify_ok[of lt xs] obtain heap' where h: "heapify lt xs = Inr heap'" "mset heap' = mset xs"
      by auto
    from heappop_all_sorted[OF swo heapify_heap[OF swo h(1)]] h show ?thesis by auto
  qed
  from gen[OF swo_linorder, of ys] sorted_desc_unique
  have "\<exists>heap'. heapify (<) ys = Inr heap' \<and> heappop_all (<) heap' = Inr (rev (sort ys))"
    by blast
  with gen[OF assms, of xs] show ?thesis by blast
qed

theorem heapify_heappop_descending_witness:
  "strict_weak_order ((<) :: int \<Rightarrow> int \<Rightarrow> bool)
   \<and> heapify (<) [5, 3, 8, 3, -1 :: int] = Inr [8, 3, 5, 3, -1]
   \<and> heappop_all (<) [8, 3, 5, 3, -1 :: int] = Inr [8, 5, 3, 3, -1]
   \<and> rev (sort [5, 3, 8, 3, -1 :: int]) = [8, 5, 3, 3, -1]"
proof -
  have swo: "strict_weak_order ((<) :: int \<Rightarrow> int \<Rightarrow> bool)" by (rule swo_linorder)
  have ev: "heapify (<) [5, 3, 8, 3, -1 :: int] = Inr [8, 3, 5, 3, -1]"
    by (simp add: heapify_def siftdown_def siftdown_loop_unfold Let_def upt_rec)
  have s: "rev (sort [5, 3, 8, 3, -1 :: int]) = [8, 5, 3, 3, -1]" by simp
  from heapify_heappop_descending[OF swo, of "[5, 3, 8, 3, -1]" "[5, 3, 8, 3, -1 :: int]"] ev s swo
  show ?thesis by simp
qed

text \<open>
  C5, as the code has it. When two records have equal heads (or equal keys), the
  one with the larger order index, that is the record of the input listed later,
  compares as larger in the max-heap, and its head is yielded before the tied head
  of an input listed earlier: of two inputs whose heads have the same key, the head
  of the second is yielded first. In general \<open>merge\<close>, with or without a key
  function, is the selection \<open>spec_merge\<close>: it yields at each step the head with
  the largest key and, among the inputs whose heads have that key, the head of the
  input listed last.
\<close>

theorem merge_tie_break_later_first:
  "(k = k' \<longrightarrow> (rec_lt (k, i, c) (k', j, c') \<longleftrightarrow> i < j))
   \<and> (key x = key y \<longrightarrow> (\<exists>out. merge_key key reverse [x # xs, y # ys] = Inr (y # out)))
   \<and> merge_key key reverse iterables = Inr (spec_merge key iterables)
   \<and> merge_nokey reverse iterables' = Inr (spec_merge (\<lambda>x. x) iterables')
   \<and> (spec_pick key cs = Some n \<longrightarrow>
        n < length cs \<and> cs ! n \<noteq> [] \<and>
        (\<forall>m<length cs. cs ! m \<noteq> [] \<longrightarrow>
           key (hd (cs ! m)) < key (hd (cs ! n))
           \<or> (key (hd (cs ! m)) = key (hd (cs ! n)) \<and> m \<le> n)))"
proof (intro conjI impI)
  assume "k = k'"
  then show "rec_lt (k, i, c) (k', j, c') \<longleftrightarrow> i < j" by (simp add: rec_lt_def)
next
  assume "key x = key y"
  then show "\<exists>out. merge_key key reverse [x # xs, y # ys] = Inr (y # out)"
    using spec_merge_tied_heads[of key x y xs ys] by (simp add: merge_key_refines)
next
  show "merge_key key reverse iterables = Inr (spec_merge key iterables)"
    by (rule merge_key_refines)
  show "merge_nokey reverse iterables' = Inr (spec_merge (\<lambda>x. x) iterables')"
    by (rule merge_nokey_refines)
next
  assume p: "spec_pick key cs = Some n"
  show "n < length cs" "cs ! n \<noteq> []" by (rule spec_pick_Some[OF p])+
  show "\<forall>m<length cs. cs ! m \<noteq> [] \<longrightarrow>
           key (hd (cs ! m)) < key (hd (cs ! n))
           \<or> (key (hd (cs ! m)) = key (hd (cs ! n)) \<and> m \<le> n)"
    using spec_pick_Some(3)[OF p] by blast
qed

theorem merge_tie_break_later_first_witness:
  "rec_lt (3 :: nat, 0 :: nat, ''dog'', [] :: string list) (3, 1, ''cat'', [])
   \<and> length ''dog'' = length ''cat''
   \<and> merge_key length False [[''dog''], [''cat'']] = Inr [''cat'', ''dog'']
   \<and> spec_merge length [[''dog''], [''cat'']] = [''cat'', ''dog'']
   \<and> spec_merge (\<lambda>x. x) [[2, 1], [2 :: int]] = [2, 2, 1]"
proof -
  have 1: "merge_key length False [[''dog''], [''cat'']] = Inr [''cat'', ''dog'']"
    by (simp add: run_heap run_merge_key)
  have 2: "merge_nokey False [[2, 1], [2 :: int]] = Inr [2, 2, 1]"
    by (simp add: run_heap run_merge)
  from merge_tie_break_later_first[where k = "3 :: nat" and k' = 3 and i = 0 and j = 1
      and c = "(''dog'', [] :: string list)" and c' = "(''cat'', [])"
      and key = length and x = "''dog''" and y = "''cat''" and xs = "[]" and ys = "[]"
      and reverse = False and iterables = "[[''dog''], [''cat'']]"
      and iterables' = "[[2, 1], [2 :: int]]" and cs = "[[''dog''], [''cat'']]" and n = 1] 1 2
  show ?thesis by simp
qed

theorem merge_tie_break_counterexample:
  "rec_lt (length ''dog'', 0 :: nat, ''dog'', [] :: string list) (length ''cat'', 1, ''cat'', [])
   \<and> \<not> rec_lt (length ''cat'', 1 :: nat, ''cat'', [] :: string list) (length ''dog'', 0, ''dog'', [])
   \<and> merge_key length False [[''dog''], [''cat'']] = Inr [''cat'', ''dog'']"
  by (simp add: run_heap run_merge_key)

text \<open>
  C6. \<open>merge\<close> with the key function "length of the string" on \<open>["horse","dog"]\<close> and
  \<open>["kangaroo","fish","cat"]\<close> yields \<open>["kangaroo","horse","fish","cat","dog"]\<close>.
\<close>

theorem merge_key_length_strings:
  "merge_key length reverse [[''horse'', ''dog''], [''kangaroo'', ''fish'', ''cat'']]
     = Inr [''kangaroo'', ''horse'', ''fish'', ''cat'', ''dog'']"
  by (simp add: run_heap run_merge_key)

theorem merge_key_length_strings_witness:
  "merge_key length False [[''horse'', ''dog''], [''kangaroo'', ''fish'', ''cat'']]
     = Inr [''kangaroo'', ''horse'', ''fish'', ''cat'', ''dog'']"
  by (rule merge_key_length_strings)




text \<open>
  C8. \<open>heappop\<close> and \<open>heapreplace\<close> fail exactly on the empty list. The failure is
  the \<open>IndexError\<close> of the list operation underneath (\<open>heap.pop()\<close>, \<open>heap[0]\<close>),
  passed on as it is, and the list is still empty when it is raised. On a non-empty
  list both return.
\<close>

theorem heappop_heapreplace_IndexError:
  "(heap = [] \<longrightarrow>
      heappop lt heap = Inl (IndexError, []) \<and> heappop lt heap = ebind (list_pop heap) Inr
      \<and> heapreplace lt heap item = Inl (IndexError, [])
      \<and> heapreplace lt heap item = ebind (getitem heap 0) (\<lambda>x. Inr (x, heap)))
   \<and> (heap \<noteq> [] \<longrightarrow>
      (\<exists>x heap'. heappop lt heap = Inr (x, heap')) \<and> (\<exists>x heap'. heapreplace lt heap item = Inr (x, heap')))"
  using heappop_ok[of heap lt] heapreplace_ok[of heap lt item]
  by (auto simp: heappop_empty heapreplace_empty list_pop_def getitem_def)

theorem heappop_heapreplace_IndexError_witness:
  "heappop (<) ([] :: int list) = Inl (IndexError, [])
   \<and> heapreplace (<) ([] :: int list) 1 = Inl (IndexError, [])
   \<and> heappop (<) [3, 1, 2 :: int] = Inr (3, [2, 1])
   \<and> heapreplace (<) [3, 1, 2 :: int] 0 = Inr (3, [2, 1, 0])"
proof -
  have e1: "heappop (<) [3, 1, 2 :: int] = Inr (3, [2, 1])"
    by (simp add: heappop_def list_pop_def siftdown_def siftdown_loop_unfold Let_def)
  have e2: "heapreplace (<) [3, 1, 2 :: int] 0 = Inr (3, [2, 1, 0])"
    by (simp add: heapreplace_def siftdown_def siftdown_loop_unfold Let_def)
  from heappop_heapreplace_IndexError[of "[] :: int list" "(<)" 1]
       heappop_heapreplace_IndexError[of "[3, 1, 2 :: int]" "(<)" 0] e1 e2
  show ?thesis by simp
qed

text \<open>
  C9. For every list, every comparison and every position \<open>pos < len(heap)\<close>,
  \<open>_siftup\<close> and \<open>_siftdown\<close> return: no read or write of theirs is out of range
  (an access out of range is an \<open>IndexError\<close> in the model). \<open>heappush\<close> returns
  for every list, whether it satisfies the heap invariant or not.
\<close>

theorem sift_in_bounds:
  "(pos < length heap \<longrightarrow>
      (\<exists>heap'. siftup lt heap pos = Inr heap' \<and> length heap' = length heap)
      \<and> (\<exists>heap'. siftdown lt heap pos = Inr heap' \<and> length heap' = length heap))
   \<and> (\<exists>heap'. heappush lt heap item = Inr heap')"
  using siftup_ok[of pos heap lt] siftdown_ok[of pos heap lt] heappush_ok[of lt heap item]
  by auto

theorem sift_in_bounds_witness:
  "(1::nat) < length [1, 5, 3 :: int]
   \<and> siftup (<) [1, 5, 3 :: int] 1 = Inr [5, 1, 3]
   \<and> siftdown (<) [1, 5, 3 :: int] 0 = Inr [5, 1, 3]
   \<and> heappush (<) [1, 5, 3 :: int] 7 = Inr [7, 1, 3, 5]"
proof -
  have e1: "siftup (<) [1, 5, 3 :: int] 1 = Inr [5, 1, 3]"
    by (simp add: siftup_def siftup_loop_unfold)
  have e2: "siftdown (<) [1, 5, 3 :: int] 0 = Inr [5, 1, 3]"
    by (simp add: siftdown_def siftdown_loop_unfold Let_def)
  have e3: "heappush (<) [1, 5, 3 :: int] 7 = Inr [7, 1, 3, 5]"
    by (simp add: heappush_def siftup_def siftup_loop_unfold)
  from sift_in_bounds[of 1 "[1, 5, 3 :: int]" "(<)" 7] e1 e2 e3
  show ?thesis by simp
qed

text \<open>
  C10. For every finite collection of inputs, sorted or not, \<open>merge\<close> returns, with a
  key function and without one, and the values it yields are, as a multiset, the
  elements of all the inputs: each is yielded once.
\<close>

theorem merge_permutation:
  "(\<exists>out. merge_nokey reverse iterables = Inr out \<and> mset out = mset (concat iterables))
   \<and> (\<exists>out. merge_key key reverse' iterables' = Inr out \<and> mset out = mset (concat iterables'))"
  by (simp add: merge_nokey_refines merge_key_refines spec_merge_mset)

theorem merge_permutation_witness:
  "merge_nokey False [[1, 3, 2], [5, 4 :: int]] = Inr [5, 4, 1, 3, 2]
   \<and> mset [5, 4, 1, 3, 2 :: int] = mset (concat [[1, 3, 2], [5, 4]])
   \<and> (\<exists>out. merge_key length False [[''a'', ''ccc''], [''bb'']] = Inr out
          \<and> mset out = mset (concat [[''a'', ''ccc''], [''bb'']]))"
proof -
  have 1: "merge_nokey False [[1, 3, 2], [5, 4 :: int]] = Inr [5, 4, 1, 3, 2]"
    by (simp add: run_heap run_merge)
  from merge_permutation[of False "[[1, 3, 2], [5, 4 :: int]]" length False "[[''a'', ''ccc''], [''bb'']]"] 1
  show ?thesis by simp
qed

end
